theory Spec2Isabelle
  imports Complex_Main
begin

section \<open>Floating-point values\<close>

text \<open>
  The module works on \<^verbatim>\<open>float64\<close> numbers (numpy arrays and Python floats). A value is
  either finite, an infinity, or not-a-number. A finite value is given by the real number
  it stands for. The sign of a zero is not tracked: the only divisor that can be zero in
  the module is a Euclidean norm, which is never negative.
\<close>

datatype fl = Fin real | PInf | NInf | NaN

text \<open>
  Rounding to \<^verbatim>\<open>float64\<close>, to the nearest value with ties to even. A positive real
  \<open>x\<close> lies in the binade of exponent \<open>expo x\<close>, which is at least \<open>- 1022\<close> (below,
  the values are subnormal); the floats of that binade are the multiples of \<open>ulp x\<close>, with
  53 significant bits. A result of magnitude \<open>2 ^ 1024\<close> or more is an infinity; a real of
  magnitude at most \<open>2 ^ - 1075\<close> rounds to zero.
\<close>

definition rne :: "real \<Rightarrow> int" where
  "rne q =
     (let n = \<lfloor>q\<rfloor> in
      if q - of_int n < 1 / 2 then n
      else if 1 / 2 < q - of_int n then n + 1
      else if even n then n else n + 1)"

definition expo :: "real \<Rightarrow> int" where
  "expo x = max \<lfloor>log 2 x\<rfloor> (- 1022)"

definition ulp :: "real \<Rightarrow> real" where
  "ulp x = 2 powr of_int (expo x - 52)"

definition mag :: "real \<Rightarrow> real" where
  "mag x = (if x = 0 then 0 else of_int (rne (x / ulp x)) * ulp x)"

definition round64 :: "real \<Rightarrow> fl" where
  "round64 x =
     (if 2 ^ 1024 \<le> mag \<bar>x\<bar> then (if 0 < x then PInf else NInf)
      else Fin (sgn x * mag \<bar>x\<bar>))"

text \<open>A decimal literal of the source stands for the float nearest to it.\<close>

definition float_of :: "real \<Rightarrow> real" where
  "float_of x = (case round64 x of Fin z \<Rightarrow> z | _ \<Rightarrow> 0)"

text \<open>
  The arithmetic of IEEE 754: the exact result of an operation on finite values is
  rounded; the special values follow the standard's rules.
\<close>

fun fl_neg :: "fl \<Rightarrow> fl" where
  "fl_neg (Fin a) = Fin (- a)"
| "fl_neg PInf = NInf"
| "fl_neg NInf = PInf"
| "fl_neg NaN = NaN"

fun fl_add :: "fl \<Rightarrow> fl \<Rightarrow> fl" where
  "fl_add (Fin a) (Fin b) = round64 (a + b)"
| "fl_add NaN _ = NaN"
| "fl_add _ NaN = NaN"
| "fl_add PInf NInf = NaN"
| "fl_add NInf PInf = NaN"
| "fl_add PInf _ = PInf"
| "fl_add _ PInf = PInf"
| "fl_add NInf _ = NInf"
| "fl_add _ NInf = NInf"

definition fl_sub :: "fl \<Rightarrow> fl \<Rightarrow> fl" where
  "fl_sub a b = fl_add a (fl_neg b)"

fun fl_mul :: "fl \<Rightarrow> fl \<Rightarrow> fl" where
  "fl_mul (Fin a) (Fin b) = round64 (a * b)"
| "fl_mul NaN _ = NaN"
| "fl_mul _ NaN = NaN"
| "fl_mul (Fin a) PInf = (if a = 0 then NaN else if 0 < a then PInf else NInf)"
| "fl_mul (Fin a) NInf = (if a = 0 then NaN else if 0 < a then NInf else PInf)"
| "fl_mul PInf (Fin b) = (if b = 0 then NaN else if 0 < b then PInf else NInf)"
| "fl_mul NInf (Fin b) = (if b = 0 then NaN else if 0 < b then NInf else PInf)"
| "fl_mul PInf PInf = PInf"
| "fl_mul PInf NInf = NInf"
| "fl_mul NInf PInf = NInf"
| "fl_mul NInf NInf = PInf"

fun fl_div :: "fl \<Rightarrow> fl \<Rightarrow> fl" where
  "fl_div (Fin a) (Fin b) =
     (if b \<noteq> 0 then round64 (a / b)
      else if a = 0 then NaN else if 0 < a then PInf else NInf)"
| "fl_div NaN _ = NaN"
| "fl_div _ NaN = NaN"
| "fl_div (Fin a) PInf = Fin 0"
| "fl_div (Fin a) NInf = Fin 0"
| "fl_div PInf (Fin b) = (if 0 \<le> b then PInf else NInf)"
| "fl_div NInf (Fin b) = (if 0 \<le> b then NInf else PInf)"
| "fl_div PInf PInf = NaN"
| "fl_div PInf NInf = NaN"
| "fl_div NInf PInf = NaN"
| "fl_div NInf NInf = NaN"

fun fl_sqrt :: "fl \<Rightarrow> fl" where
  "fl_sqrt (Fin a) = (if a < 0 then NaN else round64 (sqrt a))"
| "fl_sqrt PInf = PInf"
| "fl_sqrt NInf = NaN"
| "fl_sqrt NaN = NaN"

fun fl_abs :: "fl \<Rightarrow> fl" where
  "fl_abs (Fin a) = Fin \<bar>a\<bar>"
| "fl_abs PInf = PInf"
| "fl_abs NInf = PInf"
| "fl_abs NaN = NaN"

text \<open>Comparisons: every comparison with a NaN is false, also \<^verbatim>\<open>nan == nan\<close>.\<close>

fun fl_eq :: "fl \<Rightarrow> fl \<Rightarrow> bool" where
  "fl_eq NaN _ = False"
| "fl_eq _ NaN = False"
| "fl_eq a b = (a = b)"

fun fl_le :: "fl \<Rightarrow> fl \<Rightarrow> bool" where
  "fl_le (Fin a) (Fin b) = (a \<le> b)"
| "fl_le NaN _ = False"
| "fl_le _ NaN = False"
| "fl_le NInf _ = True"
| "fl_le _ PInf = True"
| "fl_le PInf _ = False"
| "fl_le _ NInf = False"

fun isinf :: "fl \<Rightarrow> bool" where
  "isinf PInf = True"
| "isinf NInf = True"
| "isinf _ = False"

section \<open>The numpy and math primitives the module calls\<close>

text \<open>
  A one-dimensional array is a list of floats, a two-dimensional array a list of rows.
  The caller's vectors hold finite floats; \<^verbatim>\<open>np.asarray\<close> turns them into arrays.
\<close>

definition asarray :: "real list \<Rightarrow> fl list" where
  "asarray xs = map Fin xs"

text \<open>\<^verbatim>\<open>a.dot(b)\<close> on two one-dimensional arrays of the same length: the products are
  summed from left to right, every product and every partial sum rounded. (numpy hands
  the sum to its BLAS library, which may add the products in another order and so round
  differently; the model takes the plain loop.)\<close>

definition dot :: "fl list \<Rightarrow> fl list \<Rightarrow> fl" where
  "dot xs ys = foldl fl_add (Fin 0) (map2 fl_mul xs ys)"

text \<open>\<^verbatim>\<open>np.linalg.norm(x)\<close> on a one-dimensional array: \<^verbatim>\<open>sqrt(x.dot(x))\<close>.\<close>

definition norm_fl :: "fl list \<Rightarrow> fl" where
  "norm_fl xs = fl_sqrt (dot xs xs)"

text \<open>\<^verbatim>\<open>array / scalar\<close>: the division is done on every element. A division by
  zero raises nothing in numpy (it warns and stores NaN or an infinity).\<close>

definition vec_div :: "fl list \<Rightarrow> fl \<Rightarrow> fl list" where
  "vec_div xs d = map (\<lambda>x. fl_div x d) xs"

definition outer :: "fl list \<Rightarrow> fl list \<Rightarrow> fl list list" where
  "outer xs ys = map (\<lambda>x. map (\<lambda>y. fl_mul x y) ys) xs"

definition eye :: "nat \<Rightarrow> fl list list" where
  "eye n = map (\<lambda>i. map (\<lambda>j. if i = j then Fin 1 else Fin 0) [0..<n]) [0..<n]"

text \<open>Element-wise sum and difference of two arrays of the same shape, and
  \<^verbatim>\<open>scalar * array\<close>.\<close>

definition mat_add :: "fl list list \<Rightarrow> fl list list \<Rightarrow> fl list list" where
  "mat_add A B = map2 (map2 fl_add) A B"

definition mat_sub :: "fl list list \<Rightarrow> fl list list \<Rightarrow> fl list list" where
  "mat_sub A B = map2 (map2 fl_sub) A B"

definition scalar_mul :: "fl \<Rightarrow> fl list list \<Rightarrow> fl list list" where
  "scalar_mul c A = map (map (fl_mul c)) A"

text \<open>
  \<^verbatim>\<open>math.cos\<close> and \<^verbatim>\<open>math.sin\<close> are the platform's C library functions. How they
  round is not fixed by any standard, so they are a parameter of the model.
\<close>

record libm =
  libm_cos :: "real \<Rightarrow> fl"
  libm_sin :: "real \<Rightarrow> fl"

text \<open>
  The two \<^verbatim>\<open>ValueError\<close>s the module raises itself, with the values their messages
  report, and the one \<^verbatim>\<open>math.isclose\<close> raises for a negative tolerance.
\<close>

datatype error =
    DimensionMismatch nat nat
  | NotOrthogonal real
  | NegativeTolerance

text \<open>
  \<^verbatim>\<open>math.isclose(a, b, rel_tol=..., abs_tol=...)\<close>, as CPython implements it: equal
  values are close, an infinity is close to nothing else, and a NaN is close to nothing.
\<close>

definition isclose :: "fl \<Rightarrow> fl \<Rightarrow> real \<Rightarrow> real \<Rightarrow> error + bool" where
  "isclose a b rel_tol abs_tol =
     (if rel_tol < 0 \<or> abs_tol < 0 then Inl NegativeTolerance
      else if fl_eq a b then Inr True
      else if isinf a \<or> isinf b then Inr False
      else
        let diff = fl_abs (fl_sub b a) in
        Inr (fl_le diff (fl_abs (fl_mul (Fin rel_tol) b))
             \<or> fl_le diff (fl_abs (fl_mul (Fin rel_tol) a))
             \<or> fl_le diff (Fin abs_tol)))"

text \<open>The default of \<^verbatim>\<open>rel_tol\<close> in \<^verbatim>\<open>math.isclose\<close>, \<^verbatim>\<open>1e-09\<close>, and the default of
  \<^verbatim>\<open>abs_tolerance_orthogonal_check\<close>, \<^verbatim>\<open>1e-10\<close>.\<close>

definition default_rel_tol :: real where
  "default_rel_tol = float_of (1 / 10 ^ 9)"

definition default_abs_tolerance_orthogonal_check :: real where
  "default_abs_tolerance_orthogonal_check = float_of (1 / 10 ^ 10)"

section \<open>The module's function\<close>

text \<open>
  \<^verbatim>\<open>rotation_from_angle_and_plane(angle, vector1, vector2, abs_tolerance_orthogonal_check)\<close>,
  on a platform with the C library \<open>m\<close>. The angle and the tolerance are finite floats.
  Both vectors are normalised first, then the lengths are compared, then the orthogonality
  is checked, and only then the matrix is built. A raised exception is the \<open>Inl\<close> result.
\<close>

definition rotation_from_angle_and_plane ::
    "libm \<Rightarrow> real \<Rightarrow> real list \<Rightarrow> real list \<Rightarrow> real \<Rightarrow> error + fl list list" where
  "rotation_from_angle_and_plane m angle vector1 vector2 abs_tolerance_orthogonal_check =
     (let v1 = vec_div (asarray vector1) (norm_fl (asarray vector1));
          v2 = vec_div (asarray vector2) (norm_fl (asarray vector2))
      in
        if length v1 \<noteq> length v2 then Inl (DimensionMismatch (length v1) (length v2))
        else
          case isclose (dot v1 v2) (Fin 0) default_rel_tol abs_tolerance_orthogonal_check of
            Inl e \<Rightarrow> Inl e
          | Inr close \<Rightarrow>
              if \<not> close then Inl (NotOrthogonal abs_tolerance_orthogonal_check)
              else
                let V = mat_add (outer v1 v1) (outer v2 v2);
                    W = mat_sub (outer v1 v2) (outer v2 v1)
                in Inr (mat_sub
                          (mat_add (eye (length v1))
                             (scalar_mul (fl_sub (libm_cos m angle) (Fin 1)) V))
                          (scalar_mul (libm_sin m angle) W)))"

text \<open>
  A C library whose cosine and sine are correctly rounded: the instance of the parameter
  at which concrete calls are evaluated.
\<close>

definition rounded_libm :: libm where
  "rounded_libm = \<lparr>libm_cos = (\<lambda>a. round64 (cos a)), libm_sin = (\<lambda>a. round64 (sin a))\<rparr>"

section \<open>Real vectors\<close>

text \<open>The dot product and the Euclidean norm over the reals, in which the hypotheses on
  the caller's vectors are stated.\<close>

definition dotr :: "real list \<Rightarrow> real list \<Rightarrow> real" where
  "dotr xs ys = sum_list (map2 (*) xs ys)"

definition normr :: "real list \<Rightarrow> real" where
  "normr xs = sqrt (dotr xs xs)"

section \<open>The parts of the function, and the transpose\<close>

text \<open>
  The number of columns of a two-dimensional array and its transpose (\<^verbatim>\<open>M.T\<close>).
\<close>

definition ncols :: "fl list list \<Rightarrow> nat" where
  "ncols A = (case A of [] \<Rightarrow> 0 | r # _ \<Rightarrow> length r)"

definition transpose_m :: "fl list list \<Rightarrow> fl list list" where
  "transpose_m A = map (\<lambda>j. map (\<lambda>r. r ! j) A) [0..<ncols A]"

text \<open>
  Lines 52 to 55 of the function: the matrix built from \<open>c = cos(angle) - 1\<close>,
  \<open>s = sin(angle)\<close> and the two normalised vectors; and lines 41 and 42: a vector
  divided by its norm.
\<close>

definition build_matrix :: "fl \<Rightarrow> fl \<Rightarrow> fl list \<Rightarrow> fl list \<Rightarrow> fl list list" where
  "build_matrix c s v1 v2 =
     (let V = mat_add (outer v1 v1) (outer v2 v2);
          W = mat_sub (outer v1 v2) (outer v2 v1)
      in mat_sub (mat_add (eye (length v1)) (scalar_mul c V)) (scalar_mul s W))"

definition normalise :: "real list \<Rightarrow> fl list" where
  "normalise xs = vec_div (asarray xs) (norm_fl (asarray xs))"

text \<open>The entry of the built matrix at row \<open>i\<close> and column \<open>j\<close>, and the array with
  given entries.\<close>

definition entry :: "fl \<Rightarrow> fl \<Rightarrow> fl list \<Rightarrow> fl list \<Rightarrow> nat \<Rightarrow> nat \<Rightarrow> fl" where
  "entry c s v1 v2 i j =
     fl_sub (fl_add (if i = j then Fin 1 else Fin 0)
               (fl_mul c (fl_add (fl_mul (v1 ! i) (v1 ! j)) (fl_mul (v2 ! i) (v2 ! j)))))
            (fl_mul s (fl_sub (fl_mul (v1 ! i) (v2 ! j)) (fl_mul (v2 ! i) (v1 ! j))))"

definition table :: "nat \<Rightarrow> (nat \<Rightarrow> nat \<Rightarrow> fl) \<Rightarrow> fl list list" where
  "table n f = map (\<lambda>i. map (\<lambda>j. f i j) [0..<n]) [0..<n]"

text \<open>A float so small that its square underflows to zero.\<close>

definition tiny :: real where
  "tiny = 1 / 2 ^ 540"

text \<open>A vector multiplied by a scalar, and a function applied to the returned matrix
  while a raised error stays as it is.\<close>

definition vscale :: "real \<Rightarrow> real list \<Rightarrow> real list" where
  "vscale k xs = map ((*) k) xs"


text \<open>A float is within \<open>t\<close> of zero when it is finite and its magnitude is at most
  \<open>t\<close>.\<close>

fun fl_within :: "fl \<Rightarrow> real \<Rightarrow> bool" where
  "fl_within (Fin z) t = (\<bar>z\<bar> \<le> t)"
| "fl_within _ t = False"


text \<open>A float is finite when it is neither an infinity nor a NaN.\<close>

fun isfinite :: "fl \<Rightarrow> bool" where
  "isfinite (Fin z) = True"
| "isfinite _ = False"

text \<open>The rounded squares of the components, which the norm sums, and the values such a
  sum takes: a float that is not negative, or the positive infinity.\<close>

definition squares :: "real list \<Rightarrow> fl list" where
  "squares xs = map (\<lambda>x. round64 (x * x)) xs"

definition nonneg_float :: "fl \<Rightarrow> bool" where
  "nonneg_float t = (case t of Fin m \<Rightarrow> 0 \<le> m \<and> mag m = m | PInf \<Rightarrow> True | _ \<Rightarrow> False)"



section \<open>Zero vectors, NaN and the length check\<close>

text \<open>
  Zero rounds to zero, so the norm of a zero vector is computed as exactly zero and every
  component of the normalised vector is \<open>0 / 0\<close>, a NaN. A NaN in a dot product makes
  the result NaN, which \<^verbatim>\<open>math.isclose\<close> rejects.
\<close>

lemma rne_0 [simp]: "rne 0 = 0"
  by (simp add: rne_def)

lemma mag_0 [simp]: "mag 0 = 0"
  by (simp add: mag_def)

lemma round64_0 [simp]: "round64 0 = Fin 0"
  by (simp add: round64_def)

lemma dotr_self_nonneg: "0 \<le> dotr xs xs"
  by (induction xs) (simp_all add: dotr_def)

lemma normr_eq_0_iff: "normr xs = 0 \<longleftrightarrow> (\<forall>x \<in> set xs. x = 0)"
proof -
  have "dotr xs xs = 0 \<longleftrightarrow> (\<forall>x \<in> set xs. x = 0)"
  proof (induction xs)
    case Nil
    show ?case by (simp add: dotr_def)
  next
    case (Cons x xs)
    have "dotr (x # xs) (x # xs) = x * x + dotr xs xs" by (simp add: dotr_def)
    moreover have "0 \<le> x * x" by simp
    moreover have "x * x = 0 \<longleftrightarrow> x = 0" by simp
    ultimately show ?case
      using Cons.IH dotr_self_nonneg [of xs]
      by (metis add_nonneg_eq_0_iff list.set_intros(1) list.set_intros(2) set_ConsD)
  qed
  then show ?thesis by (simp add: normr_def)
qed

lemma dot_zeros:
  assumes "\<forall>x \<in> set xs. x = 0"
  shows "dot (map Fin xs) (map Fin xs) = Fin 0"
proof -
  have "foldl fl_add (Fin 0) (map2 fl_mul (map Fin xs) (map Fin xs)) = Fin 0"
    using assms by (induction xs) simp_all
  then show ?thesis by (simp add: dot_def)
qed

lemma normalise_zero_norm:
  assumes "normr xs = 0"
  shows "vec_div (asarray xs) (norm_fl (asarray xs)) = map (\<lambda>_. NaN) xs"
proof -
  have z: "\<forall>x \<in> set xs. x = 0" using assms by (simp add: normr_eq_0_iff)
  then have "norm_fl (asarray xs) = Fin 0"
    by (simp add: norm_fl_def asarray_def dot_zeros)
  then show ?thesis
    using z by (simp add: vec_div_def asarray_def)
qed

lemma fl_add_NaN_right [simp]: "fl_add x NaN = NaN"
  by (cases x) simp_all

lemma fl_mul_NaN_right [simp]: "fl_mul x NaN = NaN"
  by (cases x) simp_all

lemma foldl_fl_add_NaN [simp]: "foldl fl_add NaN zs = NaN"
  by (induction zs) simp_all

lemma dot_NaN_left:
  assumes "length xs = length ys" "xs \<noteq> []" "\<forall>x \<in> set xs. x = NaN"
  shows "dot xs ys = NaN"
proof -
  obtain x xs' where xs: "xs = x # xs'" using assms(2) by (cases xs) auto
  obtain y ys' where ys: "ys = y # ys'" using assms(1) xs by (cases ys) auto
  have "x = NaN" using assms(3) xs by simp
  then show ?thesis by (simp add: dot_def xs ys)
qed

lemma dot_NaN_right:
  assumes "length xs = length ys" "ys \<noteq> []" "\<forall>y \<in> set ys. y = NaN"
  shows "dot xs ys = NaN"
proof -
  obtain y ys' where ys: "ys = y # ys'" using assms(2) by (cases ys) auto
  obtain x xs' where xs: "xs = x # xs'" using assms(1) ys by (cases xs) auto
  have "y = NaN" using assms(3) ys by simp
  then show ?thesis by (simp add: dot_def xs ys)
qed

lemma length_vec_div_asarray [simp]: "length (vec_div (asarray xs) d) = length xs"
  by (simp add: vec_div_def asarray_def)

lemma float_of_nonneg:
  assumes "0 \<le> x"
  shows "0 \<le> float_of x"
proof (cases "x = 0")
  case True
  then show ?thesis by (simp add: float_of_def)
next
  case False
  then have pos: "0 < x" using assms by simp
  have "0 \<le> x / ulp x" using pos by (simp add: ulp_def)
  then have "0 \<le> \<lfloor>x / ulp x\<rfloor>" by simp
  then have "0 \<le> rne (x / ulp x)" by (simp add: rne_def Let_def)
  then have "0 \<le> mag x" using pos by (simp add: mag_def ulp_def)
  then show ?thesis using pos by (simp add: float_of_def round64_def)
qed

lemma default_rel_tol_nonneg [simp]: "\<not> default_rel_tol < 0"
  using float_of_nonneg [of "1 / 10 ^ 9"] by (simp add: default_rel_tol_def)

lemma default_tolerance_nonneg [simp]:
  "\<not> default_abs_tolerance_orthogonal_check < 0" "0 \<le> default_abs_tolerance_orthogonal_check"
  using float_of_nonneg [of "1 / 10 ^ 10"]
  by (simp_all add: default_abs_tolerance_orthogonal_check_def)

lemma isclose_NaN: "0 \<le> t \<Longrightarrow> isclose NaN (Fin 0) default_rel_tol t = Inr False"
  by (simp add: isclose_def fl_sub_def)

lemma rot_zero_norm:
  assumes "length v1 = length v2" "v1 \<noteq> []" "normr v1 = 0 \<or> normr v2 = 0" "0 \<le> t"
  shows "rotation_from_angle_and_plane lm a v1 v2 t = Inl (NotOrthogonal t)"
proof -
  let ?n1 = "vec_div (asarray v1) (norm_fl (asarray v1))"
  let ?n2 = "vec_div (asarray v2) (norm_fl (asarray v2))"
  have ne: "v2 \<noteq> []" using assms(1,2) by auto
  have "dot ?n1 ?n2 = NaN"
  proof (cases "normr v1 = 0")
    case True
    show ?thesis
      by (rule dot_NaN_left) (use assms(1,2) True in \<open>simp_all add: normalise_zero_norm\<close>)
  next
    case False
    then have "normr v2 = 0" using assms(3) by simp
    then show ?thesis
      by (intro dot_NaN_right) (use assms(1) ne in \<open>simp_all add: normalise_zero_norm\<close>)
  qed
  then show ?thesis
    using assms(1,4) by (simp add: rotation_from_angle_and_plane_def Let_def isclose_NaN)
qed

lemma rot_mismatch:
  "length v1 \<noteq> length v2 \<Longrightarrow>
     rotation_from_angle_and_plane lm a v1 v2 t = Inl (DimensionMismatch (length v1) (length v2))"
  by (simp add: rotation_from_angle_and_plane_def Let_def)

lemma rot_match_no_mismatch:
  "length v1 = length v2 \<Longrightarrow> rotation_from_angle_and_plane lm a v1 v2 t \<noteq> Inl (DimensionMismatch m n)"
  by (auto simp: rotation_from_angle_and_plane_def Let_def isclose_def split: sum.splits if_splits)

section \<open>The claims about validation\<close>

text \<open>
  Claim C5. The function raises the dimension mismatch error, which reports both lengths,
  if and only if the two vectors differ in length. When they do, that error is the result
  whatever the tolerance and the vectors' directions are: the comparison of the lengths
  comes before the orthogonality check and before the matrix is built, and no matrix is
  returned. The statement needs no assumption on the vectors.
\<close>

theorem dimension_mismatch_iff:
  "(rotation_from_angle_and_plane lm a v1 v2 t = Inl (DimensionMismatch (length v1) (length v2)))
     = (length v1 \<noteq> length v2)
   \<and> (\<exists>m n. rotation_from_angle_and_plane lm a v1 v2 t = Inl (DimensionMismatch m n))
     = (length v1 \<noteq> length v2)"
  using rot_mismatch [of v1 v2 lm a t] rot_match_no_mismatch [of v1 v2 lm a t] by auto

text \<open>Lengths 3 and 2 are rejected; lengths 2 and 2 never give that error.\<close>

theorem dimension_mismatch_iff_witness:
  "rotation_from_angle_and_plane rounded_libm 1 [1, 0, 0] [1, 1] 0 = Inl (DimensionMismatch 3 2)
   \<and> (\<nexists>m n. rotation_from_angle_and_plane rounded_libm 1 [1, 0] [0, 1] 0 = Inl (DimensionMismatch m n))"
  using dimension_mismatch_iff [of rounded_libm 1 "[1, 0, 0]" "[1, 1]" 0]
        dimension_mismatch_iff [of rounded_libm 1 "[1, 0]" "[0, 1]" 0]
  by simp

text \<open>
  Claim C6 says that a vector of norm zero raises no error and that the NaNs reach the
  returned matrix. It does not hold: with \<open>vector1 = [0, 0]\<close> the normalised vector is
  \<open>[NaN, NaN]\<close>, the dot product is NaN, \<^verbatim>\<open>math.isclose\<close> answers False and the
  function raises the orthogonality error.
\<close>

theorem zero_norm_returns_matrix_counterexample:
  "normr [0, 0] = 0
   \<and> rotation_from_angle_and_plane rounded_libm 1 [0, 0] [0, 1] default_abs_tolerance_orthogonal_check
       = Inl (NotOrthogonal default_abs_tolerance_orthogonal_check)"
  by (simp add: normr_def dotr_def rotation_from_angle_and_plane_def Let_def asarray_def
        norm_fl_def dot_def vec_div_def isclose_def fl_sub_def)

text \<open>
  Claim C6, amended. When the two vectors have the same length \<open>n \<ge> 1\<close>, the tolerance
  is nonnegative and one of the vectors has norm zero, the division by the zero norm raises
  nothing and turns every component of that vector into NaN; the dot product of the
  normalised vectors is then NaN, the orthogonality check fails, and the function raises the
  orthogonality error instead of returning a matrix.
\<close>

theorem zero_norm_raises_not_orthogonal:
  assumes "length v1 = length v2" "v1 \<noteq> []" "normr v1 = 0 \<or> normr v2 = 0" "0 \<le> t"
  shows "(normr v1 = 0 \<longrightarrow>
            vec_div (asarray v1) (norm_fl (asarray v1)) = replicate (length v1) NaN)
         \<and> (normr v2 = 0 \<longrightarrow>
            vec_div (asarray v2) (norm_fl (asarray v2)) = replicate (length v2) NaN)
         \<and> rotation_from_angle_and_plane lm a v1 v2 t = Inl (NotOrthogonal t)"
  using rot_zero_norm [OF assms] by (simp add: normalise_zero_norm map_replicate_const)

text \<open>A zero vector next to a nonzero one, in dimension 3.\<close>

theorem zero_norm_raises_not_orthogonal_witness:
  "length [0, 0, 0 :: real] = length [0, 3, 0 :: real] \<and> [0, 0, 0 :: real] \<noteq> []
   \<and> (normr [0, 0, 0] = 0 \<or> normr [0, 3, 0] = 0) \<and> (0 :: real) \<le> 1 / 10 ^ 10
   \<and> vec_div (asarray [0, 0, 0]) (norm_fl (asarray [0, 0, 0])) = [NaN, NaN, NaN]
   \<and> rotation_from_angle_and_plane rounded_libm 1 [0, 0, 0] [0, 3, 0] (1 / 10 ^ 10)
       = Inl (NotOrthogonal (1 / 10 ^ 10))"
proof -
  have h1: "length [0, 0, 0 :: real] = length [0, 3, 0 :: real]" by simp
  have h2: "[0, 0, 0 :: real] \<noteq> []" by simp
  have z: "normr [0, 0, 0] = 0" by (simp add: normr_def dotr_def)
  then have h3: "normr [0, 0, 0] = 0 \<or> normr [0, 3, 0] = 0" by simp
  have h4: "(0 :: real) \<le> 1 / 10 ^ 10" by simp
  show ?thesis
    using zero_norm_raises_not_orthogonal [OF h1 h2 h3 h4, of rounded_libm 1] h1 h3 h4 z
    by (simp add: numeral_3_eq_3)
qed

section \<open>Symmetries of the float arithmetic\<close>

text \<open>
  Rounding commutes with negation, and addition and multiplication are commutative also
  on the special values. These laws hold exactly in \<^verbatim>\<open>float64\<close>.
\<close>

lemma mag_lt_overflow_nonzero: "2 ^ 1024 \<le> mag \<bar>x\<bar> \<Longrightarrow> x \<noteq> 0"
  by (auto simp: mag_def)

lemma round64_neg: "round64 (- x) = fl_neg (round64 x)"
proof (cases "2 ^ 1024 \<le> mag \<bar>x\<bar>")
  case True
  then have "x \<noteq> 0" by (rule mag_lt_overflow_nonzero)
  then show ?thesis using True by (auto simp: round64_def)
next
  case False
  then show ?thesis by (simp add: round64_def sgn_minus)
qed

lemma fl_neg_neg [simp]: "fl_neg (fl_neg a) = a"
  by (cases a) simp_all

lemma fl_mul_commute: "fl_mul a b = fl_mul b a"
  by (cases a; cases b) (simp_all add: mult.commute)

lemma fl_add_commute: "fl_add a b = fl_add b a"
  by (cases a; cases b) (simp_all add: add.commute)

lemma fl_neg_add: "fl_add (fl_neg a) (fl_neg b) = fl_neg (fl_add a b)"
proof (cases a; cases b)
  fix x y assume "a = Fin x" "b = Fin y"
  then show ?thesis using round64_neg [of "x + y"] by simp
qed simp_all

lemma fl_mul_neg_left: "fl_mul (fl_neg a) b = fl_neg (fl_mul a b)"
proof (cases a; cases b)
  fix x y assume "a = Fin x" "b = Fin y"
  then show ?thesis using round64_neg [of "x * y"] by simp
qed (simp_all add: not_less)

lemma fl_mul_neg_right: "fl_mul a (fl_neg b) = fl_neg (fl_mul a b)"
  by (metis fl_mul_commute fl_mul_neg_left)

lemma fl_sub_swap: "fl_sub a b = fl_neg (fl_sub b a)"
  unfolding fl_sub_def
  by (metis fl_add_commute fl_neg_add fl_neg_neg)

lemma fl_sub_neg_right: "fl_sub a (fl_neg b) = fl_add a b"
  by (simp add: fl_sub_def)

section \<open>The built matrix, entry by entry\<close>

lemma length_vec_div [simp]: "length (vec_div xs d) = length xs"
  by (simp add: vec_div_def)

lemma length_asarray [simp]: "length (asarray xs) = length xs"
  by (simp add: asarray_def)

lemma rot_unfold:
  "rotation_from_angle_and_plane lm a x1 x2 t =
     (if length x1 \<noteq> length x2 then Inl (DimensionMismatch (length x1) (length x2))
      else case isclose (dot (normalise x1) (normalise x2)) (Fin 0) default_rel_tol t of
             Inl e \<Rightarrow> Inl e
           | Inr close \<Rightarrow>
               if \<not> close then Inl (NotOrthogonal t)
               else Inr (build_matrix (fl_sub (libm_cos lm a) (Fin 1)) (libm_sin lm a)
                           (normalise x1) (normalise x2)))"
  unfolding rotation_from_angle_and_plane_def normalise_def build_matrix_def Let_def
  by simp

lemma length_normalise [simp]: "length (normalise xs) = length xs"
  by (simp add: normalise_def)

lemma build_matrix_table:
  assumes "length v2 = length v1"
  shows "build_matrix c s v1 v2 = table (length v1) (entry c s v1 v2)"
proof (rule nth_equalityI)
  show len: "length (build_matrix c s v1 v2) = length (table (length v1) (entry c s v1 v2))"
    using assms
    by (simp add: build_matrix_def Let_def table_def mat_sub_def mat_add_def eye_def
          scalar_mul_def outer_def)
  fix i assume "i < length (build_matrix c s v1 v2)"
  then have i: "i < length v1" using len by (simp add: table_def)
  show "build_matrix c s v1 v2 ! i = table (length v1) (entry c s v1 v2) ! i"
    using assms i
    by (intro nth_equalityI)
       (simp_all add: build_matrix_def Let_def table_def mat_sub_def mat_add_def eye_def
          scalar_mul_def outer_def entry_def)
qed

lemma ncols_table: "ncols (table n f) = n"
  by (cases n) (simp_all add: ncols_def table_def upt_conv_Cons del: upt_Suc)

lemma transpose_table: "transpose_m (table n f) = table n (\<lambda>i j. f j i)"
  by (simp add: transpose_m_def ncols_table) (simp add: table_def)

lemma table_cong: "(\<And>i j. i < n \<Longrightarrow> j < n \<Longrightarrow> f i j = g i j) \<Longrightarrow> table n f = table n g"
  by (simp add: table_def)

lemma entry_transpose: "entry c s v1 v2 j i = entry c (fl_neg s) v1 v2 i j"
proof -
  have d: "(if j = i then Fin 1 else Fin 0) = (if i = j then Fin 1 else Fin 0)" by auto
  have v: "fl_add (fl_mul (v1 ! j) (v1 ! i)) (fl_mul (v2 ! j) (v2 ! i))
           = fl_add (fl_mul (v1 ! i) (v1 ! j)) (fl_mul (v2 ! i) (v2 ! j))"
    by (simp add: fl_mul_commute)
  have w: "fl_sub (fl_mul (v1 ! j) (v2 ! i)) (fl_mul (v2 ! j) (v1 ! i))
           = fl_neg (fl_sub (fl_mul (v1 ! i) (v2 ! j)) (fl_mul (v2 ! i) (v1 ! j)))"
    using fl_sub_swap [of "fl_mul (v2 ! i) (v1 ! j)" "fl_mul (v1 ! i) (v2 ! j)"]
    by (simp add: fl_mul_commute)
  show ?thesis
    unfolding entry_def d v w by (simp add: fl_mul_neg_left fl_mul_neg_right)
qed

lemma entry_swap: "entry c s v2 v1 i j = entry c (fl_neg s) v1 v2 i j"
proof -
  have v: "fl_add (fl_mul (v2 ! i) (v2 ! j)) (fl_mul (v1 ! i) (v1 ! j))
           = fl_add (fl_mul (v1 ! i) (v1 ! j)) (fl_mul (v2 ! i) (v2 ! j))"
    by (rule fl_add_commute)
  have w: "fl_sub (fl_mul (v2 ! i) (v1 ! j)) (fl_mul (v1 ! i) (v2 ! j))
           = fl_neg (fl_sub (fl_mul (v1 ! i) (v2 ! j)) (fl_mul (v2 ! i) (v1 ! j)))"
    by (rule fl_sub_swap)
  show ?thesis
    unfolding entry_def v w by (simp add: fl_mul_neg_left fl_mul_neg_right)
qed

lemma build_matrix_transpose:
  assumes "length v2 = length v1"
  shows "transpose_m (build_matrix c s v1 v2) = build_matrix c (fl_neg s) v1 v2"
  unfolding build_matrix_table [OF assms] transpose_table
  by (rule table_cong) (rule entry_transpose)

lemma build_matrix_swap:
  assumes "length v2 = length v1"
  shows "build_matrix c s v2 v1 = build_matrix c (fl_neg s) v1 v2"
  unfolding build_matrix_table [OF assms] build_matrix_table [OF assms [symmetric]] assms
  by (rule table_cong) (rule entry_swap)

lemma map2_fl_mul_commute: "map2 fl_mul xs ys = map2 fl_mul ys xs"
proof (induction xs arbitrary: ys)
  case Nil
  show ?case by simp
next
  case (Cons x xs)
  show ?case by (cases ys) (simp_all add: Cons.IH fl_mul_commute)
qed

lemma dot_commute: "dot xs ys = dot ys xs"
  by (simp add: dot_def map2_fl_mul_commute [of xs ys])

lemma rot_InrD:
  assumes "rotation_from_angle_and_plane lm a x1 x2 t = Inr M"
  shows "length x1 = length x2"
    and "isclose (dot (normalise x1) (normalise x2)) (Fin 0) default_rel_tol t = Inr True"
    and "M = build_matrix (fl_sub (libm_cos lm a) (Fin 1)) (libm_sin lm a)
               (normalise x1) (normalise x2)"
  using assms unfolding rot_unfold by (auto split: if_splits sum.splits)

lemma rot_InrI:
  assumes "length x1 = length x2"
    and "isclose (dot (normalise x1) (normalise x2)) (Fin 0) default_rel_tol t = Inr True"
  shows "rotation_from_angle_and_plane lm a x1 x2 t
         = Inr (build_matrix (fl_sub (libm_cos lm a) (Fin 1)) (libm_sin lm a)
               (normalise x1) (normalise x2))"
  using assms unfolding rot_unfold by simp

text \<open>
  Claim C10, amended. On a platform whose cosine is even and whose sine is odd at the
  angle \<open>a\<close>: whenever the function returns a matrix \<open>M\<close> for \<open>a\<close>, \<open>v1\<close>, \<open>v2\<close>
  (that is, whenever its own checks pass), it returns the transpose of \<open>M\<close>, bit for
  bit, both for the angle \<open>- a\<close> and for the angle \<open>a\<close> with the two vectors swapped.
\<close>

theorem transpose_inverts_accepted_rotation:
  assumes "libm_cos lm (- a) = libm_cos lm a" "libm_sin lm (- a) = fl_neg (libm_sin lm a)"
      and "rotation_from_angle_and_plane lm a v1 v2 t = Inr M"
  shows "rotation_from_angle_and_plane lm (- a) v1 v2 t = Inr (transpose_m M)
         \<and> rotation_from_angle_and_plane lm a v2 v1 t = Inr (transpose_m M)"
proof -
  note d = rot_InrD [OF assms(3)]
  have len: "length (normalise v2) = length (normalise v1)" using d(1) by simp
  have tr: "transpose_m M = build_matrix (fl_sub (libm_cos lm a) (Fin 1))
              (fl_neg (libm_sin lm a)) (normalise v1) (normalise v2)"
    unfolding d(3) by (rule build_matrix_transpose [OF len])
  have "rotation_from_angle_and_plane lm (- a) v1 v2 t = Inr (transpose_m M)"
    unfolding tr using rot_InrI [OF d(1,2), of lm "- a"] by (simp add: assms(1,2))
  moreover have "rotation_from_angle_and_plane lm a v2 v1 t = Inr (transpose_m M)"
  proof -
    have c: "isclose (dot (normalise v2) (normalise v1)) (Fin 0) default_rel_tol t = Inr True"
      using d(2) by (simp add: dot_commute [of "normalise v2"])
    show ?thesis
      unfolding tr using rot_InrI [OF d(1) [symmetric] c, of lm a]
      by (simp add: build_matrix_swap [OF len])
  qed
  ultimately show ?thesis by simp
qed

section \<open>Rounding: underflow and exact values\<close>

lemma rne_of_int [simp]: "rne (of_int k) = k"
  by (simp add: rne_def)

lemma rne_small:
  assumes "0 \<le> q" "q < 1 / 2"
  shows "rne q = 0"
proof -
  have "\<lfloor>q\<rfloor> = 0" using assms by (intro floor_unique) simp_all
  then show ?thesis using assms by (simp add: rne_def)
qed

lemma floor_log2_eq:
  assumes "2 powr of_int n \<le> y" "y < 2 powr of_int (n + 1)"
  shows "\<lfloor>log 2 y\<rfloor> = n"
proof (rule floor_unique)
  have pos: "0 < y" using assms(1) powr_gt_zero [of 2 "of_int n"] by linarith
  show "of_int n \<le> log 2 y"
    using assms(1) pos by (simp add: le_log_iff)
  show "log 2 y < of_int n + 1"
    using assms(2) pos by (simp add: log_less_iff)
qed

lemma ulp_pos: "0 < ulp x"
  by (simp add: ulp_def)

lemma expo_subnormal:
  assumes "0 < y" "y < 2 powr (- 1022)"
  shows "expo y = - 1022"
proof -
  have "log 2 y < - 1022"
    using assms by (simp add: log_less_iff)
  then have "\<lfloor>log 2 y\<rfloor> \<le> - 1022" by linarith
  then show ?thesis by (simp add: expo_def)
qed

lemma mag_underflow:
  assumes "0 \<le> y" "y < 2 powr (- 1075)"
  shows "mag y = 0"
proof (cases "y = 0")
  case True
  then show ?thesis by (simp add: mag_def)
next
  case False
  then have pos: "0 < y" using assms(1) by simp
  have "(2 :: real) powr (- 1075) \<le> 2 powr (- 1022)" by (intro powr_mono) simp_all
  then have "y < 2 powr (- 1022)" using assms(2) by linarith
  then have e: "expo y = - 1022" by (rule expo_subnormal [OF pos])
  have u: "ulp y = 2 powr (- 1074)" by (simp add: ulp_def e)
  have "y / 2 powr (- 1074) < 2 powr (- 1075) / 2 powr (- 1074)"
    using assms(2) by (simp add: divide_strict_right_mono)
  also have "(2 :: real) powr (- 1075) / 2 powr (- 1074) = 2 powr (- 1)"
    by (simp add: powr_diff [symmetric])
  also have "\<dots> = 1 / 2" by (simp add: powr_minus)
  finally have "y / ulp y < 1 / 2" by (simp add: u)
  moreover have "0 \<le> y / ulp y" using pos ulp_pos [of y] by simp
  ultimately have "rne (y / ulp y) = 0" by (rule rne_small [rotated])
  then show ?thesis by (simp add: mag_def)
qed

lemma round64_underflow:
  assumes "\<bar>x\<bar> < 2 powr (- 1075)"
  shows "round64 x = Fin 0"
proof -
  have "mag \<bar>x\<bar> = 0" using assms by (intro mag_underflow) simp_all
  then show ?thesis by (simp add: round64_def)
qed

lemma two_powr_int: "0 \<le> n \<Longrightarrow> (2 :: real) powr of_int n = 2 ^ nat n"
  by (simp add: powr_realpow [symmetric])

lemma mag_exact_normal:
  assumes "2 ^ 52 \<le> k" "k < 2 ^ 53" "- 1074 \<le> e"
  shows "mag (of_int k * 2 powr of_int e) = of_int k * 2 powr of_int e"
proof -
  let ?y = "of_int k * 2 powr of_int e :: real"
  have p52: "(2 :: real) powr of_int 52 = 2 ^ 52" and p53: "(2 :: real) powr of_int 53 = 2 ^ 53"
    using two_powr_int [of 52] two_powr_int [of 53] by simp_all
  have "(of_int ((2 :: int) ^ 52) :: real) \<le> of_int k"
    using assms(1) by (simp only: of_int_le_iff)
  moreover have "(of_int k :: real) < of_int ((2 :: int) ^ 53)"
    using assms(2) by (simp only: of_int_less_iff)
  ultimately have kr: "(2 :: real) ^ 52 \<le> of_int k" "of_int k < (2 :: real) ^ 53"
    by simp_all
  have a52: "(2 :: real) powr of_int (e + 52) = 2 ^ 52 * 2 powr of_int e"
  proof -
    have "(2 :: real) powr (of_int e + 52) = 2 powr of_int e * 2 powr 52"
      by (rule powr_add)
    then show ?thesis using p52 by (simp add: mult.commute)
  qed
  have a53: "(2 :: real) powr of_int (e + 52 + 1) = 2 ^ 53 * 2 powr of_int e"
  proof -
    have "(2 :: real) powr (of_int e + 53) = 2 powr of_int e * 2 powr 53"
      by (rule powr_add)
    then show ?thesis using p53 by (simp add: mult.commute add.assoc)
  qed
  have lo: "2 powr of_int (e + 52) \<le> ?y"
    unfolding a52 using kr(1) by (intro mult_right_mono) simp_all
  have hi: "?y < 2 powr of_int (e + 52 + 1)"
    unfolding a53 using kr(2) by (intro mult_strict_right_mono) simp_all
  have fl: "\<lfloor>log 2 ?y\<rfloor> = e + 52" by (rule floor_log2_eq [OF lo hi])
  have ex: "expo ?y = e + 52" using assms(3) by (simp add: expo_def fl)
  have u: "ulp ?y = 2 powr of_int e" by (simp add: ulp_def ex)
  have ne: "?y \<noteq> 0" using kr(1) by simp
  have "?y / ulp ?y = of_int k" by (simp add: u)
  then show ?thesis using ne by (simp add: mag_def u)
qed

lemma round64_exact_normal:
  assumes "2 ^ 52 \<le> k" "k < 2 ^ 53" "- 1074 \<le> e" "e \<le> 971"
  shows "round64 (of_int k * 2 powr of_int e) = Fin (of_int k * 2 powr of_int e)"
proof -
  let ?y = "of_int k * 2 powr of_int e :: real"
  have "(of_int k :: real) < of_int ((2 :: int) ^ 53)"
    using assms(2) by (simp only: of_int_less_iff)
  moreover have "0 < k" using assms(1) by (rule less_le_trans [rotated]) simp
  ultimately have kr: "0 < (of_int k :: real)" "of_int k < (2 :: real) ^ 53"
    by simp_all
  have pos: "0 < ?y" using kr(1) by simp
  have "?y < 2 ^ 53 * 2 powr of_int e"
    using kr(2) by (intro mult_strict_right_mono) simp_all
  also have "\<dots> \<le> 2 ^ 53 * 2 powr of_int 971"
    using assms(4) by (intro mult_left_mono powr_mono) simp_all
  also have "\<dots> = 2 ^ 53 * 2 ^ 971" using two_powr_int [of 971] by simp
  also have "\<dots> = 2 ^ 1024" by (simp add: power_add [symmetric])
  finally have lt: "?y < 2 ^ 1024" .
  have m: "mag \<bar>?y\<bar> = ?y"
    using mag_exact_normal [OF assms(1,2,3)] pos by (simp add: abs_of_pos)
  show ?thesis
    unfolding round64_def m using lt pos by simp
qed

lemma round64_1 [simp]: "round64 1 = Fin 1"
proof -
  have "(2 :: real) powr of_int (- 52) = 1 / 2 ^ 52"
    using two_powr_int [of 52] by (simp add: powr_minus_divide)
  then have "of_int (2 ^ 52) * 2 powr of_int (- 52) = (1 :: real)" by simp
  then show ?thesis
    using round64_exact_normal [of "2 ^ 52" "- 52"] by simp
qed

lemma round64_minus_1 [simp]: "round64 (- 1) = Fin (- 1)"
  using round64_neg [of 1] by simp

lemma rounded_libm_symmetric:
  "libm_cos rounded_libm (- a) = libm_cos rounded_libm a"
  "libm_sin rounded_libm (- a) = fl_neg (libm_sin rounded_libm a)"
  by (simp_all add: rounded_libm_def round64_neg)

lemma normalise_e1: "normalise [1, 0] = [Fin 1, Fin 0]"
  by (simp add: normalise_def asarray_def norm_fl_def dot_def vec_div_def)

lemma normalise_e2: "normalise [0, 1] = [Fin 0, Fin 1]"
  by (simp add: normalise_def asarray_def norm_fl_def dot_def vec_div_def)

lemma tiny_pos: "0 < tiny"
  by (simp add: tiny_def)

lemma round64_tiny_square: "round64 (tiny * tiny) = Fin 0"
proof (rule round64_underflow)
  have "(2 :: real) powr (- 1075) = 1 / 2 ^ 1075"
    using two_powr_int [of 1075] by (simp add: powr_minus_divide)
  moreover have "tiny * tiny = 1 / 2 ^ 1080"
    unfolding tiny_def by (simp only: times_divide_times_eq mult_1 power_add [symmetric]) simp
  moreover have "(1 :: real) / 2 ^ 1080 < 1 / 2 ^ 1075"
    by (intro divide_strict_left_mono power_strict_increasing) simp_all
  moreover have "\<bar>tiny * tiny\<bar> = tiny * tiny"
    using tiny_pos by (simp only: abs_of_pos mult_pos_pos)
  ultimately show "\<bar>tiny * tiny\<bar> < 2 powr (- 1075)"
    by (simp only:)
qed

lemma normalise_tiny: "normalise [tiny, 0] = [PInf, NaN]"
  using tiny_pos
  by (simp add: normalise_def asarray_def norm_fl_def dot_def vec_div_def round64_tiny_square)

text \<open>
  Claim C10 speaks of the matrices returned for every valid orthogonal pair. For the
  nonzero, exactly orthogonal vectors \<open>[2\<^sup>-\<^sup>5\<^sup>4\<^sup>0, 0]\<close> and \<open>[0, 1]\<close> no matrix is
  returned: the squared norm of the first underflows to zero, its normalised form is
  \<open>[inf, nan]\<close>, the dot product is NaN and each of the three calls raises the
  orthogonality error.
\<close>

theorem transpose_relation_counterexample:
  "dotr [tiny, 0] [0, 1] = 0 \<and> normr [tiny, 0] \<noteq> 0 \<and> normr [0, 1] \<noteq> 0
   \<and> rotation_from_angle_and_plane rounded_libm 1 [tiny, 0] [0, 1]
         default_abs_tolerance_orthogonal_check
       = Inl (NotOrthogonal default_abs_tolerance_orthogonal_check)
   \<and> rotation_from_angle_and_plane rounded_libm (- 1) [tiny, 0] [0, 1]
         default_abs_tolerance_orthogonal_check
       = Inl (NotOrthogonal default_abs_tolerance_orthogonal_check)
   \<and> rotation_from_angle_and_plane rounded_libm 1 [0, 1] [tiny, 0]
         default_abs_tolerance_orthogonal_check
       = Inl (NotOrthogonal default_abs_tolerance_orthogonal_check)"
  using tiny_pos
  by (simp add: rot_unfold normalise_tiny normalise_e2 dot_def isclose_def fl_sub_def
        dotr_def normr_def)

text \<open>The two axes of the plane at the angle 1, with a correctly rounded C library.\<close>

theorem transpose_inverts_accepted_rotation_witness:
  "libm_cos rounded_libm (- 1) = libm_cos rounded_libm 1
   \<and> libm_sin rounded_libm (- 1) = fl_neg (libm_sin rounded_libm 1)
   \<and> rotation_from_angle_and_plane rounded_libm 1 [1, 0] [0, 1] 0
       = Inr (build_matrix (fl_sub (libm_cos rounded_libm 1) (Fin 1)) (libm_sin rounded_libm 1)
                [Fin 1, Fin 0] [Fin 0, Fin 1])
   \<and> rotation_from_angle_and_plane rounded_libm (- 1) [1, 0] [0, 1] 0
       = Inr (transpose_m
               (build_matrix (fl_sub (libm_cos rounded_libm 1) (Fin 1)) (libm_sin rounded_libm 1)
                  [Fin 1, Fin 0] [Fin 0, Fin 1]))
   \<and> rotation_from_angle_and_plane rounded_libm 1 [0, 1] [1, 0] 0
       = Inr (transpose_m
               (build_matrix (fl_sub (libm_cos rounded_libm 1) (Fin 1)) (libm_sin rounded_libm 1)
                  [Fin 1, Fin 0] [Fin 0, Fin 1]))"
proof -
  have h3: "rotation_from_angle_and_plane rounded_libm 1 [1, 0] [0, 1] 0
       = Inr (build_matrix (fl_sub (libm_cos rounded_libm 1) (Fin 1)) (libm_sin rounded_libm 1)
                [Fin 1, Fin 0] [Fin 0, Fin 1])"
    by (simp add: rot_unfold normalise_e1 normalise_e2 dot_def isclose_def)
  show ?thesis
    using transpose_inverts_accepted_rotation
      [OF rounded_libm_symmetric [of 1] h3] rounded_libm_symmetric [of 1] h3
    by simp
qed

section \<open>Negating an input vector\<close>

text \<open>
  Negating a vector negates its normalised form exactly; the dot product changes sign,
  which \<^verbatim>\<open>math.isclose\<close> against zero ignores, and so does the antisymmetric term of the
  matrix.
\<close>

lemma fl_neg_zero [simp]: "fl_neg (Fin 0) = Fin 0"
  by simp

lemma fl_abs_neg [simp]: "fl_abs (fl_neg a) = fl_abs a"
  by (cases a) simp_all

lemma isinf_neg [simp]: "isinf (fl_neg a) = isinf a"
  by (cases a) simp_all

lemma fl_eq_neg_zero [simp]: "fl_eq (fl_neg a) (Fin 0) = fl_eq a (Fin 0)"
  by (cases a) simp_all



















lemma vscale_one [simp]: "vscale 1 xs = xs"
  by (induction xs) (simp_all add: vscale_def)

lemma vscale_minus_one [simp]: "vscale (- 1) xs = map uminus xs"
  by (induction xs) (simp_all add: vscale_def)


section \<open>Rounding: bounds\<close>

text \<open>The rounded value of a real in the normal or subnormal range lies within a factor
  of two of it, and a real below \<open>2 ^ 1023\<close> in magnitude rounds to a finite float.\<close>

lemma rne_bounds:
  assumes "1 \<le> q"
  shows "q / 2 \<le> of_int (rne q)" and "of_int (rne q) \<le> 2 * q"
proof -
  have f: "of_int \<lfloor>q\<rfloor> \<le> q" "q < of_int \<lfloor>q\<rfloor> + 1" by linarith+
  have f1: "1 \<le> \<lfloor>q\<rfloor>" using assms by linarith
  then have f1r: "(1 :: real) \<le> of_int \<lfloor>q\<rfloor>" by linarith
  have lo: "\<lfloor>q\<rfloor> \<le> rne q" and hi: "rne q \<le> \<lfloor>q\<rfloor> + 1"
    by (simp_all add: rne_def Let_def)
  have "q / 2 \<le> of_int \<lfloor>q\<rfloor>" using f f1r by linarith
  also have "(of_int \<lfloor>q\<rfloor> :: real) \<le> of_int (rne q)" using lo by linarith
  finally show "q / 2 \<le> of_int (rne q)" .
  have "(of_int (rne q) :: real) \<le> of_int \<lfloor>q\<rfloor> + 1" using hi by linarith
  also have "\<dots> \<le> 2 * q" using f f1r by linarith
  finally show "of_int (rne q) \<le> 2 * q" .
qed

lemma ulp_le:
  assumes "2 powr (- 1074) \<le> x"
  shows "ulp x \<le> x"
proof -
  have pos: "0 < x" using assms powr_gt_zero [of 2 "- 1074"] by linarith
  show ?thesis
  proof (cases "- 1022 \<le> \<lfloor>log 2 x\<rfloor>")
    case True
    then have "expo x = \<lfloor>log 2 x\<rfloor>" by (simp add: expo_def)
    then have "ulp x = 2 powr (of_int \<lfloor>log 2 x\<rfloor> - 52)" by (simp add: ulp_def)
    also have "\<dots> \<le> 2 powr (log 2 x)" by (intro powr_mono) linarith+
    also have "\<dots> = x" using pos by simp
    finally show ?thesis .
  next
    case False
    then have "expo x = - 1022" by (simp add: expo_def)
    then have "ulp x = 2 powr (- 1074)" by (simp add: ulp_def)
    then show ?thesis using assms by simp
  qed
qed

lemma mag_bounds:
  assumes "2 powr (- 1074) \<le> x"
  shows "x / 2 \<le> mag x" and "mag x \<le> 2 * x"
proof -
  have pos: "0 < x" using assms powr_gt_zero [of 2 "- 1074"] by linarith
  have u: "0 < ulp x" by (rule ulp_pos)
  have q: "1 \<le> x / ulp x" using ulp_le [OF assms] u by simp
  have m: "mag x = of_int (rne (x / ulp x)) * ulp x" using pos by (simp add: mag_def)
  have "x / 2 = (x / ulp x / 2) * ulp x" using u by simp
  also have "\<dots> \<le> of_int (rne (x / ulp x)) * ulp x"
    using rne_bounds(1) [OF q] u by (intro mult_right_mono) simp_all
  finally show "x / 2 \<le> mag x" by (simp only: m)
  have "of_int (rne (x / ulp x)) * ulp x \<le> (2 * (x / ulp x)) * ulp x"
    using rne_bounds(2) [OF q] u by (intro mult_right_mono) simp_all
  also have "\<dots> = 2 * x" using u by simp
  finally show "mag x \<le> 2 * x" by (simp only: m)
qed

lemma round64_bounds:
  assumes "2 powr (- 1074) \<le> x" "x < 2 ^ 1023"
  shows "\<exists>z. round64 x = Fin z \<and> x / 2 \<le> z \<and> z \<le> 2 * x"
proof -
  have pos: "0 < x" using assms(1) powr_gt_zero [of 2 "- 1074"] by linarith
  have "mag x \<le> 2 * x" by (rule mag_bounds(2) [OF assms(1)])
  also have "\<dots> < 2 * 2 ^ 1023" using assms(2) by simp
  also have "\<dots> = (2 :: real) ^ 1024" by simp
  finally have "\<not> 2 ^ 1024 \<le> mag \<bar>x\<bar>" using pos by simp
  then have "round64 x = Fin (mag x)" using pos by (simp add: round64_def)
  then show ?thesis using mag_bounds [OF assms(1)] by simp
qed



lemma rne_le_double:
  assumes "0 \<le> q"
  shows "of_int (rne q) \<le> 2 * q"
proof -
  consider "q < 1 / 2" | "1 / 2 \<le> q" "q < 1" | "1 \<le> q" by linarith
  then show ?thesis
  proof cases
    case 1
    then show ?thesis using rne_small [OF assms] assms by simp
  next
    case 2
    then have "\<lfloor>q\<rfloor> = 0" by (intro floor_unique) simp_all
    then have "rne q \<le> 1" by (simp add: rne_def Let_def)
    then have "(of_int (rne q) :: real) \<le> 1" by linarith
    then show ?thesis using 2 by linarith
  next
    case 3
    then show ?thesis by (rule rne_bounds(2))
  qed
qed

lemma mag_le_double:
  assumes "0 \<le> x"
  shows "mag x \<le> 2 * x"
proof (cases "x = 0")
  case True
  then show ?thesis by (simp add: mag_def)
next
  case False
  have u: "0 < ulp x" by (rule ulp_pos)
  have "of_int (rne (x / ulp x)) * ulp x \<le> (2 * (x / ulp x)) * ulp x"
    using rne_le_double [of "x / ulp x"] assms u by (intro mult_right_mono) simp_all
  also have "\<dots> = 2 * x" using u by simp
  finally show ?thesis using False by (simp add: mag_def)
qed

lemma round64_finite:
  assumes "\<bar>x\<bar> < 2 ^ 1023"
  shows "\<exists>z. round64 x = Fin z \<and> \<bar>z\<bar> \<le> 2 * \<bar>x\<bar>"
proof -
  have m: "mag \<bar>x\<bar> \<le> 2 * \<bar>x\<bar>" by (rule mag_le_double) simp
  also have "\<dots> < 2 * 2 ^ 1023" using assms by simp
  also have "\<dots> = (2 :: real) ^ 1024" by simp
  finally have "\<not> 2 ^ 1024 \<le> mag \<bar>x\<bar>" by simp
  then have r: "round64 x = Fin (sgn x * mag \<bar>x\<bar>)" by (simp add: round64_def)
  have "0 \<le> mag \<bar>x\<bar>"
    using ulp_pos [of "\<bar>x\<bar>"] rne_small [of "\<bar>x\<bar> / ulp \<bar>x\<bar>"]
    by (cases "\<bar>x\<bar> / ulp \<bar>x\<bar> < 1 / 2")
       (auto simp: mag_def rne_def Let_def intro!: mult_nonneg_nonneg)
  then have "\<bar>sgn x * mag \<bar>x\<bar>\<bar> \<le> 2 * \<bar>x\<bar>"
    using m by (simp add: abs_mult abs_sgn_eq)
  then show ?thesis using r by blast
qed


lemma accepted_axes:
  "rotation_from_angle_and_plane lm a [1, 0] [0, 1] 0
   = Inr (build_matrix (fl_sub (libm_cos lm a) (Fin 1)) (libm_sin lm a)
            [Fin 1, Fin 0] [Fin 0, Fin 1])"
  by (simp add: rot_unfold normalise_e1 normalise_e2 dot_def isclose_def)






section \<open>Rounding: monotonicity and idempotence\<close>

text \<open>
  Rounding keeps the order of the reals, and a rounded value is a float: rounding it again
  changes nothing. The proof of the second goes through the three kinds of results: a
  normal float, the next power of two when the significand rounds up to \<open>2 ^ 53\<close>, and a
  subnormal float.
\<close>

lemma rne_floor_cases: "rne q = \<lfloor>q\<rfloor> \<or> rne q = \<lfloor>q\<rfloor> + 1"
  by (simp add: rne_def Let_def)

lemma rne_mono:
  assumes "q \<le> q'"
  shows "rne q \<le> rne q'"
proof (cases "\<lfloor>q\<rfloor> = \<lfloor>q'\<rfloor>")
  case True
  then show ?thesis using assms by (simp add: rne_def Let_def)
next
  case False
  then have "\<lfloor>q\<rfloor> < \<lfloor>q'\<rfloor>" using floor_mono [OF assms] by linarith
  moreover have "rne q \<le> \<lfloor>q\<rfloor> + 1" using rne_floor_cases [of q] by linarith
  moreover have "\<lfloor>q'\<rfloor> \<le> rne q'" using rne_floor_cases [of q'] by linarith
  ultimately show ?thesis by linarith
qed

lemma rne_ge_int: "of_int k \<le> q \<Longrightarrow> k \<le> rne q"
  using rne_mono [of "of_int k" q] by simp

lemma rne_le_int: "q \<le> of_int k \<Longrightarrow> rne q \<le> k"
  using rne_mono [of q "of_int k"] by simp

lemma expo_hi:
  assumes "0 < x"
  shows "x < 2 powr of_int (expo x + 1)"
proof -
  have "log 2 x < of_int (\<lfloor>log 2 x\<rfloor> + 1)" by linarith
  also have "\<dots> \<le> of_int (expo x + 1)" by (simp add: expo_def)
  finally have "log 2 x < of_int (expo x + 1)" .
  then show ?thesis using assms by (simp add: log_less_iff)
qed

lemma expo_lo:
  assumes "2 powr (- 1022) \<le> x"
  shows "2 powr of_int (expo x) \<le> x"
proof -
  have pos: "0 < x" using assms powr_gt_zero [of 2 "- 1022"] by linarith
  have "- 1022 \<le> log 2 x" using assms pos by (simp add: le_log_iff)
  then have "- 1022 \<le> \<lfloor>log 2 x\<rfloor>" by linarith
  then have "expo x = \<lfloor>log 2 x\<rfloor>" by (simp add: expo_def)
  then have "of_int (expo x) \<le> log 2 x" by simp
  then show ?thesis using pos by (simp add: le_log_iff)
qed

lemma ulp_times: "2 ^ 52 * ulp x = 2 powr of_int (expo x)"
proof -
  have "(2 :: real) powr (52 + of_int (expo x - 52)) = 2 powr 52 * 2 powr of_int (expo x - 52)"
    by (rule powr_add)
  moreover have "(2 :: real) powr 52 = 2 ^ 52" using two_powr_int [of 52] by simp
  ultimately show ?thesis by (simp add: ulp_def)
qed

lemma ulp_times': "2 ^ 53 * ulp x = 2 powr of_int (expo x + 1)"
proof -
  have "(2 :: real) powr (of_int (expo x) + 1) = 2 powr of_int (expo x) * 2 powr 1"
    by (rule powr_add)
  then show ?thesis using ulp_times [of x] by simp
qed

lemma quot_hi:
  assumes "0 < x"
  shows "x / ulp x < 2 ^ 53"
  using expo_hi [OF assms] ulp_pos [of x] ulp_times' [of x]
  by (simp add: pos_divide_less_eq)

lemma quot_lo:
  assumes "2 powr (- 1022) \<le> x"
  shows "2 ^ 52 \<le> x / ulp x"
  using expo_lo [OF assms] ulp_pos [of x] ulp_times [of x]
  by (simp add: pos_le_divide_eq)

lemma rne_quot_hi:
  assumes "0 < x"
  shows "rne (x / ulp x) \<le> 2 ^ 53"
proof -
  have "x / ulp x \<le> of_int (2 ^ 53)" using quot_hi [OF assms] by simp
  then show ?thesis by (rule rne_le_int)
qed

lemma rne_quot_lo:
  assumes "2 powr (- 1022) \<le> x"
  shows "2 ^ 52 \<le> rne (x / ulp x)"
proof -
  have "of_int (2 ^ 52) \<le> x / ulp x" using quot_lo [OF assms] by simp
  then show ?thesis by (rule rne_ge_int)
qed

lemma rne_nonneg: "0 \<le> q \<Longrightarrow> 0 \<le> rne q"
  using rne_ge_int [of 0 q] by simp

lemma mag_nonneg: "0 \<le> x \<Longrightarrow> 0 \<le> mag x"
  using ulp_pos [of x] by (simp add: mag_def rne_nonneg)

lemma mag_hi:
  assumes "0 < x"
  shows "mag x \<le> 2 powr of_int (expo x + 1)"
proof -
  have "(of_int (rne (x / ulp x)) :: real) \<le> of_int (2 ^ 53)"
    using rne_quot_hi [OF assms] by (simp only: of_int_le_iff)
  then have "of_int (rne (x / ulp x)) * ulp x \<le> 2 ^ 53 * ulp x"
    using ulp_pos [of x] by (intro mult_right_mono) simp_all
  moreover have "mag x = of_int (rne (x / ulp x)) * ulp x" using assms by (simp add: mag_def)
  ultimately show ?thesis by (simp only: ulp_times' [symmetric])
qed

lemma mag_lo:
  assumes "2 powr (- 1022) \<le> x"
  shows "2 powr of_int (expo x) \<le> mag x"
proof -
  have pos: "0 < x" using assms powr_gt_zero [of 2 "- 1022"] by linarith
  have "(of_int (2 ^ 52) :: real) \<le> of_int (rne (x / ulp x))"
    using rne_quot_lo [OF assms] by (simp only: of_int_le_iff)
  then have "2 ^ 52 * ulp x \<le> of_int (rne (x / ulp x)) * ulp x"
    using ulp_pos [of x] by (intro mult_right_mono) simp_all
  moreover have "mag x = of_int (rne (x / ulp x)) * ulp x" using pos by (simp add: mag_def)
  ultimately show ?thesis by (simp only: ulp_times [symmetric])
qed

lemma expo_mono:
  assumes "0 < x" "x \<le> y"
  shows "expo x \<le> expo y"
proof -
  have "log 2 x \<le> log 2 y" using assms by simp
  then have "\<lfloor>log 2 x\<rfloor> \<le> \<lfloor>log 2 y\<rfloor>" by (rule floor_mono)
  then show ?thesis by (simp add: expo_def)
qed

lemma mag_mono:
  assumes "0 \<le> x" "x \<le> y"
  shows "mag x \<le> mag y"
proof (cases "x = 0")
  case True
  then show ?thesis using mag_nonneg [of y] assms by simp
next
  case False
  then have px: "0 < x" and py: "0 < y" using assms by simp_all
  have le: "expo x \<le> expo y" by (rule expo_mono [OF px assms(2)])
  show ?thesis
  proof (cases "expo x = expo y")
    case True
    then have u: "ulp y = ulp x" by (simp add: ulp_def)
    have "x / ulp x \<le> y / ulp x"
      using assms(2) ulp_pos [of x] by (simp add: divide_right_mono)
    then have "rne (x / ulp x) \<le> rne (y / ulp x)" by (rule rne_mono)
    then have "(of_int (rne (x / ulp x)) :: real) \<le> of_int (rne (y / ulp x))"
      by (simp only: of_int_le_iff)
    then have "of_int (rne (x / ulp x)) * ulp x \<le> of_int (rne (y / ulp x)) * ulp x"
      using ulp_pos [of x] by (intro mult_right_mono) simp_all
    then show ?thesis using px py by (simp add: mag_def u)
  next
    case False
    then have lt: "expo x + 1 \<le> expo y" using le by simp
    then have "- 1022 < expo y" by (simp add: expo_def)
    then have ey: "expo y = \<lfloor>log 2 y\<rfloor>" and "- 1022 \<le> \<lfloor>log 2 y\<rfloor>"
      by (simp_all add: expo_def max_def split: if_splits)
    then have "- 1022 \<le> log 2 y" by linarith
    then have "2 powr (- 1022) \<le> y" using py by (simp add: le_log_iff)
    then have "2 powr of_int (expo y) \<le> mag y" by (rule mag_lo)
    moreover have "mag x \<le> 2 powr of_int (expo x + 1)" by (rule mag_hi [OF px])
    moreover have "(2 :: real) powr of_int (expo x + 1) \<le> 2 powr of_int (expo y)"
      using lt by (intro powr_mono) simp_all
    ultimately show ?thesis by linarith
  qed
qed

lemma mag_exact_subnormal:
  assumes "0 \<le> k" "k < 2 ^ 52"
  shows "mag (of_int k * 2 powr (- 1074)) = of_int k * 2 powr (- 1074)"
proof (cases "k = 0")
  case True
  then show ?thesis by simp
next
  case False
  let ?y = "of_int k * 2 powr (- 1074) :: real"
  have kpos: "0 < (of_int k :: real)" using False assms(1) by simp
  have "(of_int k :: real) < of_int ((2 :: int) ^ 52)"
    using assms(2) by (simp only: of_int_less_iff)
  then have kr: "of_int k < (2 :: real) ^ 52" by simp
  have pos: "0 < ?y" using kpos by simp
  have "(2 :: real) powr (52 + (- 1074)) = 2 powr 52 * 2 powr (- 1074)"
    by (rule powr_add)
  moreover have "(2 :: real) powr 52 = 2 ^ 52" using two_powr_int [of 52] by simp
  ultimately have p: "(2 :: real) ^ 52 * 2 powr (- 1074) = 2 powr (- 1022)" by simp
  have "?y < 2 ^ 52 * 2 powr (- 1074)"
    using kr by (intro mult_strict_right_mono) simp_all
  then have "?y < 2 powr (- 1022)" by (simp only: p)
  then have e: "expo ?y = - 1022" by (rule expo_subnormal [OF pos])
  have u: "ulp ?y = 2 powr (- 1074)" by (simp add: ulp_def e)
  have "?y / ulp ?y = of_int k" by (simp add: u)
  then show ?thesis using pos by (simp add: mag_def u)
qed

lemma mag_idem:
  assumes "0 \<le> x"
  shows "mag (mag x) = mag x"
proof (cases "x = 0")
  case True
  then show ?thesis by simp
next
  case False
  then have pos: "0 < x" using assms by simp
  define k where "k = rne (x / ulp x)"
  define e where "e = expo x - 52"
  have m: "mag x = of_int k * 2 powr of_int e"
    using pos by (simp add: mag_def k_def e_def ulp_def)
  have e_lo: "- 1074 \<le> e" by (simp add: e_def expo_def)
  have k_hi: "k \<le> 2 ^ 53" unfolding k_def by (rule rne_quot_hi [OF pos])
  have k_lo: "0 \<le> k" unfolding k_def using pos ulp_pos [of x] by (intro rne_nonneg) simp
  consider "2 ^ 52 \<le> k" "k < 2 ^ 53" | "k = 2 ^ 53" | "k < 2 ^ 52"
    using k_hi by linarith
  then show ?thesis
  proof cases
    case 1
    then show ?thesis unfolding m using e_lo by (rule mag_exact_normal)
  next
    case 2
    have "(2 :: real) powr (of_int e + 1) = 2 powr of_int e * 2 powr 1" by (rule powr_add)
    then have "(of_int k :: real) * 2 powr of_int e = of_int (2 ^ 52) * 2 powr of_int (e + 1)"
      by (simp add: 2)
    moreover have "mag (of_int (2 ^ 52) * 2 powr of_int (e + 1)) = of_int (2 ^ 52) * 2 powr of_int (e + 1)"
      using e_lo by (intro mag_exact_normal) simp_all
    ultimately show ?thesis unfolding m by (simp only:)
  next
    case 3
    have "\<not> 2 powr (- 1022) \<le> x"
      using rne_quot_lo [of x] 3 by (auto simp: k_def)
    then have "expo x = - 1022" using pos by (intro expo_subnormal) simp_all
    then have "e = - 1074" by (simp add: e_def)
    then have m': "mag x = of_int k * 2 powr (- 1074)" using m by simp
    show ?thesis unfolding m' using k_lo 3 by (rule mag_exact_subnormal)
  qed
qed

lemma round64_FinD:
  assumes "round64 x = Fin z"
  shows "z = sgn x * mag \<bar>x\<bar>" and "mag \<bar>x\<bar> < 2 ^ 1024"
  using assms by (simp_all add: round64_def split: if_splits)

lemma round64_idem:
  assumes "round64 x = Fin z"
  shows "round64 z = Fin z"
proof -
  note z = round64_FinD [OF assms]
  have nn: "0 \<le> mag \<bar>x\<bar>" by (rule mag_nonneg) simp
  have az: "\<bar>z\<bar> = mag \<bar>x\<bar>"
  proof (cases "x = 0")
    case True
    then show ?thesis using z(1) by simp
  next
    case False
    then have "\<bar>sgn x\<bar> = 1" by (simp add: abs_sgn_eq)
    then show ?thesis using nn by (simp add: z(1) abs_mult)
  qed
  have "mag \<bar>z\<bar> = \<bar>z\<bar>" unfolding az by (rule mag_idem) simp
  moreover have "\<bar>z\<bar> < 2 ^ 1024" using az z(2) by simp
  moreover have "sgn z * \<bar>z\<bar> = z" by (simp add: sgn_mult_abs)
  ultimately show ?thesis by (simp add: round64_def)
qed

lemma float_abs_lt:
  assumes "round64 z = Fin z"
  shows "\<bar>z\<bar> < 2 ^ 1024"
proof -
  note d = round64_FinD [OF assms]
  have nn: "0 \<le> mag \<bar>z\<bar>" by (rule mag_nonneg) simp
  have "\<bar>z\<bar> = \<bar>sgn z * mag \<bar>z\<bar>\<bar>" by (rule arg_cong [where f = abs, OF d(1)])
  also have "\<dots> = \<bar>sgn z\<bar> * mag \<bar>z\<bar>" using nn by (simp add: abs_mult)
  also have "\<dots> \<le> mag \<bar>z\<bar>" using nn by (cases "z = 0") (simp_all add: abs_sgn_eq)
  finally show ?thesis using d(2) by linarith
qed

lemma round64_nonneg:
  assumes "0 \<le> x"
  shows "round64 x = PInf \<or> round64 x = Fin (mag x)"
proof (cases "x = 0")
  case True
  then show ?thesis by simp
next
  case False
  then have "0 < x" using assms by simp
  then show ?thesis by (simp add: round64_def)
qed

section \<open>The orthogonality check\<close>

text \<open>
  The dot product handed to \<^verbatim>\<open>math.isclose\<close> is a float, so its difference to zero is
  computed exactly, and the relative tolerance \<open>10\<^sup>-\<^sup>9\<close> never makes a nonzero value
  close to zero. The check therefore passes exactly when the computed dot product is
  finite and its magnitude is at most the absolute tolerance.
\<close>

lemma fl_add_float:
  assumes "fl_add a b = Fin z"
  shows "round64 z = Fin z"
  using assms by (cases a; cases b) (auto intro: round64_idem)

lemma foldl_fl_add_float:
  assumes "foldl fl_add (Fin 0) ts = Fin z"
  shows "round64 z = Fin z"
  using assms
proof (induction ts arbitrary: z rule: rev_induct)
  case Nil
  then show ?case by simp
next
  case (snoc t ts)
  then show ?case by (simp add: fl_add_float)
qed

lemma dot_float:
  assumes "dot xs ys = Fin z"
  shows "round64 z = Fin z"
  using assms unfolding dot_def by (rule foldl_fl_add_float)










section \<open>The computed norm and the normalised components\<close>

text \<open>
  A rounded sum of rounded squares is at least each of its terms, because rounding is
  monotone and leaves a float unchanged. So the computed norm is either zero (every
  square underflowed), or infinite (the sum overflowed), or at least a quarter of the
  magnitude of each component. In the first case every normalised component is an
  infinity or a NaN, in the other two every normalised component is finite, of magnitude
  at most 8.
\<close>

lemma map2_squares: "map2 fl_mul (asarray xs) (asarray xs) = squares xs"
  by (induction xs) (simp_all add: asarray_def squares_def)

lemma dot_self: "dot (asarray xs) (asarray xs) = foldl fl_add (Fin 0) (squares xs)"
  by (simp add: dot_def map2_squares)

lemma nonneg_float_round64:
  assumes "0 \<le> y"
  shows "nonneg_float (round64 y)"
  using round64_nonneg [OF assms] mag_nonneg [OF assms] mag_idem [OF assms]
  by (auto simp: nonneg_float_def)

lemma nonneg_float_square: "nonneg_float (round64 (x * x))"
  by (rule nonneg_float_round64) simp

lemma nonneg_float_zero: "nonneg_float (Fin 0)"
  by (simp add: nonneg_float_def)

lemma fl_le_PInf_D: "fl_le PInf acc \<Longrightarrow> acc = PInf"
  by (cases acc) simp_all

lemma fl_add_keeps_lower_bound:
  assumes "nonneg_float t" "fl_le t acc" "nonneg_float b"
  shows "fl_le t (fl_add acc b)"
proof (cases t)
  case (Fin m)
  then have m: "0 \<le> m" "mag m = m" using assms(1) by (simp_all add: nonneg_float_def)
  show ?thesis
  proof (cases acc)
    case acc: (Fin a)
    then have am: "m \<le> a" using assms(2) Fin by simp
    show ?thesis
    proof (cases b)
      case b: (Fin c)
      then have "0 \<le> c" using assms(3) by (simp add: nonneg_float_def)
      then have le: "m \<le> a + c" using am by linarith
      then have "mag m \<le> mag (a + c)" using m(1) by (intro mag_mono)
      then have "m \<le> mag (a + c)" using m(2) by simp
      moreover have "0 \<le> a + c" using le m(1) by linarith
      ultimately show ?thesis
        using round64_nonneg [of "a + c"] by (auto simp: Fin acc b)
    qed (use assms(3) in \<open>simp_all add: Fin acc nonneg_float_def\<close>)
  next
    case PInf
    then show ?thesis using assms(3) by (cases b) (simp_all add: Fin nonneg_float_def)
  qed (use assms(2) Fin in simp_all)
next
  case PInf
  then have "acc = PInf" using assms(2) by (simp add: fl_le_PInf_D)
  then show ?thesis using assms(3) by (cases b) (simp_all add: PInf nonneg_float_def)
qed (use assms(1) in \<open>simp_all add: nonneg_float_def\<close>)

lemma foldl_keeps_lower_bound:
  assumes "nonneg_float t" "fl_le t acc"
  shows "fl_le t (foldl fl_add acc (squares xs))"
  using assms(2)
proof (induction xs arbitrary: acc)
  case Nil
  then show ?case by (simp add: squares_def)
next
  case (Cons x xs)
  have "fl_le t (fl_add acc (round64 (x * x)))"
    by (rule fl_add_keeps_lower_bound [OF assms(1) Cons.prems nonneg_float_square])
  then have "fl_le t (foldl fl_add (fl_add acc (round64 (x * x))) (squares xs))"
    by (rule Cons.IH)
  then show ?case by (simp add: squares_def)
qed

lemma fl_add_ge_term:
  assumes "fl_le (Fin 0) acc" "nonneg_float b"
  shows "fl_le b (fl_add acc b)"
proof (cases b)
  case b: (Fin c)
  then have c: "0 \<le> c" "mag c = c" using assms(2) by (simp_all add: nonneg_float_def)
  show ?thesis
  proof (cases acc)
    case acc: (Fin a)
    then have "0 \<le> a" using assms(1) by simp
    then have le: "c \<le> a + c" by simp
    then have "mag c \<le> mag (a + c)" using c(1) by (intro mag_mono)
    then have "c \<le> mag (a + c)" using c(2) by simp
    moreover have "0 \<le> a + c" using le c(1) by linarith
    ultimately show ?thesis
      using round64_nonneg [of "a + c"] by (auto simp: acc b)
  qed (use assms(1) in \<open>simp_all add: b\<close>)
next
  case PInf
  then show ?thesis using assms(1) by (cases acc) simp_all
qed (use assms(2) in \<open>simp_all add: nonneg_float_def\<close>)

lemma foldl_ge_term:
  assumes "fl_le (Fin 0) acc" "x \<in> set xs"
  shows "fl_le (round64 (x * x)) (foldl fl_add acc (squares xs))"
  using assms
proof (induction xs arbitrary: acc)
  case Nil
  then show ?case by simp
next
  case (Cons y ys)
  let ?acc = "fl_add acc (round64 (y * y))"
  have nn: "fl_le (Fin 0) ?acc"
    by (rule fl_add_keeps_lower_bound [OF nonneg_float_zero Cons.prems(1) nonneg_float_square])
  show ?case
  proof (cases "x = y")
    case True
    have "fl_le (round64 (x * x)) ?acc"
      unfolding True by (rule fl_add_ge_term [OF Cons.prems(1) nonneg_float_square])
    then have "fl_le (round64 (x * x)) (foldl fl_add ?acc (squares ys))"
      by (rule foldl_keeps_lower_bound [OF nonneg_float_square])
    then show ?thesis by (simp add: squares_def)
  next
    case False
    then have "x \<in> set ys" using Cons.prems(2) by simp
    then have "fl_le (round64 (x * x)) (foldl fl_add ?acc (squares ys))"
      by (rule Cons.IH [OF nn])
    then show ?thesis by (simp add: squares_def)
  qed
qed

lemma dot_self_ge_term:
  assumes "x \<in> set xs"
  shows "fl_le (round64 (x * x)) (dot (asarray xs) (asarray xs))"
  unfolding dot_self by (rule foldl_ge_term [OF _ assms]) simp

lemma dot_self_nonneg_fl: "fl_le (Fin 0) (dot (asarray xs) (asarray xs))"
  unfolding dot_self by (rule foldl_keeps_lower_bound [OF nonneg_float_zero]) simp

lemma float_pos_ge:
  assumes "round64 d = Fin d" "0 < d"
  shows "2 powr (- 1074) \<le> d"
proof (rule ccontr)
  assume "\<not> 2 powr (- 1074) \<le> d"
  then have lt: "d < 2 powr (- 1074)" by simp
  have "(2 :: real) powr (- 1074) \<le> 2 powr (- 1022)" by (intro powr_mono) simp_all
  then have "d < 2 powr (- 1022)" using lt by linarith
  then have e: "expo d = - 1022" by (rule expo_subnormal [OF assms(2)])
  have u: "ulp d = 2 powr (- 1074)" by (simp add: ulp_def e)
  have m: "mag d = d"
    using round64_FinD(1) [OF assms(1)] assms(2) by simp
  have q: "0 < d / ulp d" "d / ulp d < 1" using assms(2) lt by (simp_all add: u)
  then have "\<lfloor>d / ulp d\<rfloor> = 0" by (intro floor_unique) simp_all
  then have "rne (d / ulp d) = 0 \<or> rne (d / ulp d) = 1"
    using rne_floor_cases [of "d / ulp d"] by simp
  then have "mag d = 0 \<or> mag d = ulp d" using assms(2) by (auto simp: mag_def)
  then show False using m assms(2) lt u by auto
qed

lemma sqrt_tiny: "sqrt (2 powr (- 1074)) = 2 powr (- 537)"
proof -
  have "(2 :: real) powr (- 537 + - 537) = 2 powr (- 537) * 2 powr (- 537)" by (rule powr_add)
  then have "(2 :: real) powr (- 1074) = (2 powr (- 537))\<^sup>2" by (simp add: power2_eq_square)
  then show ?thesis by (simp only: real_sqrt_abs) simp
qed

lemma norm_lower_bound:
  assumes "round64 d = Fin d" "0 < d"
  shows "\<exists>r. round64 (sqrt d) = Fin r \<and> sqrt d / 2 \<le> r"
proof -
  have lo: "2 powr (- 1074) \<le> d" by (rule float_pos_ge [OF assms])
  then have "sqrt (2 powr (- 1074)) \<le> sqrt d" by simp
  then have s_lo: "2 powr (- 537) \<le> sqrt d" by (simp only: sqrt_tiny)
  have "(2 :: real) powr (- 1074) \<le> 2 powr (- 537)" by (intro powr_mono) simp_all
  then have s_lo': "2 powr (- 1074) \<le> sqrt d" using s_lo by linarith
  have p: "((2 :: real) ^ 512)\<^sup>2 = 2 ^ 1024"
    by (simp only: power_mult [symmetric]) simp
  have "d < 2 ^ 1024" using float_abs_lt [OF assms(1)] assms(2) by simp
  then have "d < ((2 :: real) ^ 512)\<^sup>2" by (simp only: p)
  then have "sqrt d < 2 ^ 512" by (intro real_less_lsqrt) simp_all
  also have "(2 :: real) ^ 512 < 2 ^ 1023" by (rule power_strict_increasing) simp_all
  finally have "sqrt d < 2 ^ 1023" .
  then show ?thesis using round64_bounds [OF s_lo'] by blast
qed

lemma square_le_twice_sum:
  assumes "round64 (x * x) = Fin b" "b \<le> d" "2 powr (- 1074) \<le> d"
  shows "x * x \<le> 2 * d"
proof (cases "2 powr (- 1074) \<le> x * x")
  case True
  have "round64 (x * x) = PInf \<or> round64 (x * x) = Fin (mag (x * x))"
    by (rule round64_nonneg) simp
  then have "b = mag (x * x)" using assms(1) by simp
  then have "x * x / 2 \<le> b" using mag_bounds(1) [OF True] by simp
  then show ?thesis using assms(2) by linarith
next
  case False
  then show ?thesis using assms(3) powr_gt_zero [of 2 "- 1074"] by linarith
qed

lemma abs_le_twice_sqrt:
  assumes "x * x \<le> 2 * d" "0 \<le> d"
  shows "\<bar>x\<bar> \<le> 2 * sqrt d"
proof -
  have "x\<^sup>2 \<le> 4 * d" using assms by (simp add: power2_eq_square)
  then have "sqrt (x\<^sup>2) \<le> sqrt (4 * d)" by (rule real_sqrt_le_mono)
  moreover have "sqrt (4 * d) = 2 * sqrt d"
    using real_sqrt_mult [of 4 d] real_sqrt_abs [of 2] by simp
  ultimately show ?thesis by simp
qed

lemma component_bounded:
  assumes "x \<in> set xs"
  shows "norm_fl (asarray xs) = Fin 0
         \<or> fl_within (fl_div (Fin x) (norm_fl (asarray xs))) 8"
proof -
  let ?D = "dot (asarray xs) (asarray xs)"
  have nn: "fl_le (Fin 0) ?D" by (rule dot_self_nonneg_fl)
  have ge: "fl_le (round64 (x * x)) ?D" by (rule dot_self_ge_term [OF assms])
  show ?thesis
  proof (cases ?D)
    case (Fin d)
    have d0: "0 \<le> d" using nn Fin by simp
    have fd: "round64 d = Fin d" by (rule dot_float [OF Fin])
    show ?thesis
    proof (cases "d = 0")
      case True
      then show ?thesis by (simp add: norm_fl_def Fin)
    next
      case False
      then have dpos: "0 < d" using d0 by simp
      obtain r where r: "round64 (sqrt d) = Fin r" "sqrt d / 2 \<le> r"
        using norm_lower_bound [OF fd dpos] by blast
      have sq: "0 < sqrt d" using dpos by simp
      then have rpos: "0 < r" using r(2) by linarith
      have n: "norm_fl (asarray xs) = Fin r" using dpos by (simp add: norm_fl_def Fin r(1))
      obtain b where b: "round64 (x * x) = Fin b" "b \<le> d"
        using ge nonneg_float_square [of x] unfolding Fin
        by (cases "round64 (x * x)") (simp_all add: nonneg_float_def)
      have "x * x \<le> 2 * d"
        by (rule square_le_twice_sum [OF b float_pos_ge [OF fd dpos]])
      then have "\<bar>x\<bar> \<le> 2 * sqrt d" using d0 by (rule abs_le_twice_sqrt)
      also have "\<dots> \<le> 4 * r" using r(2) by linarith
      finally have "\<bar>x\<bar> / r \<le> 4" using rpos by (simp add: pos_divide_le_eq)
      then have q: "\<bar>x / r\<bar> \<le> 4" using rpos by simp
      have "(4 :: real) < 2 ^ 1023"
        using power_strict_increasing [of 2 1023 "2 :: real"] by simp
      then have "\<bar>x / r\<bar> < 2 ^ 1023" using q by linarith
      then obtain z where z: "round64 (x / r) = Fin z" "\<bar>z\<bar> \<le> 2 * \<bar>x / r\<bar>"
        using round64_finite by blast
      have "\<bar>z\<bar> \<le> 8" using z(2) q by linarith
      then show ?thesis using rpos by (simp add: n z(1))
    qed
  next
    case PInf
    then show ?thesis by (simp add: norm_fl_def)
  qed (use nn in simp_all)
qed

section \<open>Accepted vectors have finite normalised components\<close>

text \<open>
  A dot product with a term that is not finite is not finite, and
  \<^verbatim>\<open>math.isclose\<close> accepts only a finite value. So when the orthogonality check passes,
  both normalised vectors are finite, and so are the products and sums of lines 52 and 53.
\<close>

lemma normalise_map:
  "normalise xs = map (\<lambda>x. fl_div (Fin x) (norm_fl (asarray xs))) xs"
  by (simp add: normalise_def vec_div_def asarray_def comp_def)

lemma normalise_Nil_iff: "normalise xs = [] \<longleftrightarrow> xs = []"
  by (simp add: normalise_map)

lemma normalise_cases:
  "(xs \<noteq> [] \<and> (\<forall>v \<in> set (normalise xs). \<not> isfinite v))
   \<or> (\<forall>v \<in> set (normalise xs). fl_within v 8)"
proof (cases "norm_fl (asarray xs) = Fin 0")
  case True
  have "\<not> isfinite (fl_div (Fin x) (Fin 0))" for x by simp
  then have "\<forall>v \<in> set (normalise xs). \<not> isfinite v"
    by (auto simp: normalise_map True)
  moreover have "\<forall>v \<in> set (normalise xs). fl_within v 8" if "xs = []"
    using that by (simp add: normalise_map)
  ultimately show ?thesis by blast
next
  case False
  then have "\<forall>x \<in> set xs. fl_within (fl_div (Fin x) (norm_fl (asarray xs))) 8"
    using component_bounded [of _ xs] by blast
  then show ?thesis by (simp add: normalise_map)
qed

lemma fl_add_nonfinite_left: "\<not> isfinite a \<Longrightarrow> \<not> isfinite (fl_add a b)"
  by (cases a; cases b) simp_all

lemma fl_add_nonfinite_right: "\<not> isfinite b \<Longrightarrow> \<not> isfinite (fl_add a b)"
  by (cases a; cases b) simp_all

lemma fl_mul_nonfinite_left: "\<not> isfinite a \<Longrightarrow> \<not> isfinite (fl_mul a b)"
  by (cases a; cases b) simp_all

lemma foldl_nonfinite_acc: "\<not> isfinite acc \<Longrightarrow> \<not> isfinite (foldl fl_add acc ts)"
  by (induction ts arbitrary: acc) (simp_all add: fl_add_nonfinite_left)

lemma foldl_nonfinite_terms:
  assumes "ts \<noteq> []" "\<forall>t \<in> set ts. \<not> isfinite t"
  shows "\<not> isfinite (foldl fl_add acc ts)"
proof (cases ts)
  case Nil
  then show ?thesis using assms(1) by simp
next
  case (Cons t ts')
  then have "\<not> isfinite (fl_add acc t)" using assms(2) by (simp add: fl_add_nonfinite_right)
  then show ?thesis unfolding Cons by (simp add: foldl_nonfinite_acc)
qed

lemma dot_nonfinite_left:
  assumes "length xs = length ys" "xs \<noteq> []" "\<forall>v \<in> set xs. \<not> isfinite v"
  shows "\<not> isfinite (dot xs ys)"
proof -
  have "\<forall>t \<in> set (map2 fl_mul xs ys). \<not> isfinite t"
    using assms(3) by (auto simp: fl_mul_nonfinite_left dest: set_zip_leftD)
  moreover have "map2 fl_mul xs ys \<noteq> []" using assms(1,2) by (cases xs; cases ys) simp_all
  ultimately show ?thesis unfolding dot_def by (intro foldl_nonfinite_terms)
qed

lemma isclose_True_finite:
  assumes "isclose d (Fin 0) r t = Inr True"
  shows "isfinite d"
  using assms by (cases d) (simp_all add: isclose_def fl_sub_def split: if_splits)

lemma accepted_components_bounded:
  assumes "length x1 = length x2"
    and "isclose (dot (normalise x1) (normalise x2)) (Fin 0) r t = Inr True"
  shows "\<forall>v \<in> set (normalise x1). fl_within v 8"
    and "\<forall>v \<in> set (normalise x2). fl_within v 8"
proof -
  have fin: "isfinite (dot (normalise x1) (normalise x2))"
    by (rule isclose_True_finite [OF assms(2)])
  have "\<not> (x1 \<noteq> [] \<and> (\<forall>v \<in> set (normalise x1). \<not> isfinite v))"
    using dot_nonfinite_left [of "normalise x1" "normalise x2"] fin assms(1)
    by (auto simp: normalise_Nil_iff)
  then show "\<forall>v \<in> set (normalise x1). fl_within v 8"
    using normalise_cases [of x1] by blast
  have "\<not> (x2 \<noteq> [] \<and> (\<forall>v \<in> set (normalise x2). \<not> isfinite v))"
    using dot_nonfinite_left [of "normalise x2" "normalise x1"] fin assms(1)
    by (auto simp: dot_commute [of "normalise x2"] normalise_Nil_iff)
  then show "\<forall>v \<in> set (normalise x2). fl_within v 8"
    using normalise_cases [of x2] by blast
qed

lemma small_lt_overflow: "x \<le> 256 \<Longrightarrow> (x :: real) < 2 ^ 1023"
proof -
  assume "x \<le> 256"
  moreover have "(2 :: real) ^ 8 < 2 ^ 1023" by (rule power_strict_increasing) simp_all
  ultimately show ?thesis by simp
qed

lemma fl_mul_within:
  assumes "fl_within a 8" "fl_within b 8"
  shows "fl_within (fl_mul a b) 128"
proof -
  obtain p q where pq: "a = Fin p" "b = Fin q" "\<bar>p\<bar> \<le> 8" "\<bar>q\<bar> \<le> 8"
    using assms by (cases a; cases b) simp_all
  have "\<bar>p\<bar> * \<bar>q\<bar> \<le> 8 * 8" using pq(3,4) by (intro mult_mono) simp_all
  then have le: "\<bar>p * q\<bar> \<le> 64" by (simp add: abs_mult)
  then have "\<bar>p * q\<bar> < 2 ^ 1023" by (intro small_lt_overflow) simp
  then obtain z where "round64 (p * q) = Fin z" "\<bar>z\<bar> \<le> 2 * \<bar>p * q\<bar>"
    using round64_finite by blast
  then show ?thesis using le by (simp add: pq(1,2))
qed

lemma fl_add_within:
  assumes "fl_within a 128" "fl_within b 128"
  shows "isfinite (fl_add a b)"
proof -
  obtain p q where pq: "a = Fin p" "b = Fin q" "\<bar>p\<bar> \<le> 128" "\<bar>q\<bar> \<le> 128"
    using assms by (cases a; cases b) simp_all
  have "\<bar>p + q\<bar> \<le> 256" using pq(3,4) by linarith
  then have "\<bar>p + q\<bar> < 2 ^ 1023" by (rule small_lt_overflow)
  then obtain z where "round64 (p + q) = Fin z"
    using round64_finite by blast
  then show ?thesis by (simp add: pq(1,2))
qed

lemma fl_neg_within: "fl_within (fl_neg a) B = fl_within a B"
  by (cases a) simp_all

lemma fl_sub_within:
  assumes "fl_within a 128" "fl_within b 128"
  shows "isfinite (fl_sub a b)"
  unfolding fl_sub_def using assms by (intro fl_add_within) (simp_all add: fl_neg_within)

lemma fl_mul_zero_finite: "isfinite a \<Longrightarrow> fl_mul (Fin 0) a = Fin 0"
  by (cases a) simp_all

lemma entry_zero_angle:
  assumes "fl_within (v1 ! i) 8" "fl_within (v1 ! j) 8"
      and "fl_within (v2 ! i) 8" "fl_within (v2 ! j) 8"
  shows "entry (Fin 0) (Fin 0) v1 v2 i j = (if i = j then Fin 1 else Fin 0)"
proof -
  have V: "fl_mul (Fin 0) (fl_add (fl_mul (v1 ! i) (v1 ! j)) (fl_mul (v2 ! i) (v2 ! j))) = Fin 0"
    by (intro fl_mul_zero_finite fl_add_within fl_mul_within assms)
  have W: "fl_mul (Fin 0) (fl_sub (fl_mul (v1 ! i) (v2 ! j)) (fl_mul (v2 ! i) (v1 ! j))) = Fin 0"
    by (intro fl_mul_zero_finite fl_sub_within fl_mul_within assms)
  show ?thesis unfolding entry_def V W by (simp add: fl_sub_def)
qed

lemma eye_table: "eye n = table n (\<lambda>i j. if i = j then Fin 1 else Fin 0)"
  by (simp add: eye_def table_def)

text \<open>
  Claim C9, amended. On a platform where \<open>cos 0\<close> is computed as 1 and \<open>sin 0\<close> as 0:
  for all vectors and every tolerance, whenever the call at the angle 0 returns a matrix,
  that matrix is exactly the identity of the vectors' dimension.
\<close>

theorem zero_angle_returns_identity:
  assumes "libm_cos lm 0 = Fin 1" "libm_sin lm 0 = Fin 0"
      and "rotation_from_angle_and_plane lm 0 v1 v2 t = Inr M"
  shows "M = eye (length v1)"
proof -
  note d = rot_InrD [OF assms(3)]
  let ?n1 = "normalise v1" and ?n2 = "normalise v2"
  note b = accepted_components_bounded [OF d(1) d(2)]
  have c0: "fl_sub (libm_cos lm 0) (Fin 1) = Fin 0" by (simp add: assms(1) fl_sub_def)
  have "M = build_matrix (Fin 0) (Fin 0) ?n1 ?n2" using d(3) by (simp only: c0 assms(2))
  also have "\<dots> = table (length ?n1) (entry (Fin 0) (Fin 0) ?n1 ?n2)"
    by (rule build_matrix_table) (simp add: d(1))
  also have "\<dots> = table (length ?n1) (\<lambda>i j. if i = j then Fin 1 else Fin 0)"
  proof (rule table_cong)
    fix i j assume ij: "i < length ?n1" "j < length ?n1"
    then have "i < length ?n2" "j < length ?n2" using d(1) by simp_all
    then show "entry (Fin 0) (Fin 0) ?n1 ?n2 i j = (if i = j then Fin 1 else Fin 0)"
      using ij b by (intro entry_zero_angle) (simp_all only: nth_mem)
  qed
  finally show ?thesis by (simp add: eye_table)
qed

text \<open>
  Claim C9 says that for every valid orthogonal pair the call at the angle 0 returns the
  identity. For the nonzero, exactly orthogonal vectors \<open>[2\<^sup>-\<^sup>5\<^sup>4\<^sup>0, 0]\<close> and \<open>[0, 1]\<close> it
  raises the orthogonality error instead.
\<close>

theorem zero_angle_identity_counterexample:
  "length [tiny, 0] = length [0, 1 :: real] \<and> 2 \<le> length [tiny, 0]
   \<and> normr [tiny, 0] \<noteq> 0 \<and> normr [0, 1] \<noteq> 0 \<and> dotr [tiny, 0] [0, 1] = 0
   \<and> rotation_from_angle_and_plane rounded_libm 0 [tiny, 0] [0, 1]
         default_abs_tolerance_orthogonal_check
       = Inl (NotOrthogonal default_abs_tolerance_orthogonal_check)
   \<and> rotation_from_angle_and_plane rounded_libm 0 [tiny, 0] [0, 1]
         default_abs_tolerance_orthogonal_check
       \<noteq> Inr (eye 2)"
  using tiny_pos
  by (simp add: rot_unfold normalise_tiny normalise_e2 dot_def isclose_def fl_sub_def
        dotr_def normr_def)

text \<open>The two axes of the plane at the angle 0, with a correctly rounded C library.\<close>

theorem zero_angle_returns_identity_witness:
  "libm_cos rounded_libm 0 = Fin 1 \<and> libm_sin rounded_libm 0 = Fin 0
   \<and> rotation_from_angle_and_plane rounded_libm 0 [1, 0] [0, 1] 0
       = Inr (eye (length [1, 0 :: real]))"
proof -
  have c: "libm_cos rounded_libm 0 = Fin 1" and s: "libm_sin rounded_libm 0 = Fin 0"
    by (simp_all add: rounded_libm_def)
  show ?thesis
    using zero_angle_returns_identity [OF c s accepted_axes [of rounded_libm 0]]
      accepted_axes [of rounded_libm 0] c s
    by (simp only:)
qed

section \<open>An overflowing norm\<close>














end
